theory Spec2Isabelle
  imports Complex_Main "HOL-Library.Word" "HOL-Library.Log_Nat"
begin

section \<open>Images\<close>

text \<open>
  The filters of \<^verbatim>\<open>image_filters.pyx\<close> take a NumPy array of element type
  \<^verbatim>\<open>DTYPE_t\<close> (unsigned 8-bit) and of rank 3. An array is modelled by its shape
  and its elements, the elements as nested lists indexed \<open>[y][x][c]\<close>. The shape is
  kept beside the elements because an array with a zero dimension still has a shape.
\<close>

type_synonym DTYPE_t = "8 word"

record image =
  height :: nat
  width :: nat
  channels :: nat
  pix :: "DTYPE_t list list list"

text \<open>
  A well-formed array: the elements fill the shape. The code stores the three
  dimensions in C \<^verbatim>\<open>int\<close> variables, so the model covers the arrays whose
  dimensions fit in one.
\<close>

definition valid_image :: "image \<Rightarrow> bool" where
  "valid_image im \<longleftrightarrow>
     height im < 2 ^ 31 \<and> width im < 2 ^ 31 \<and> channels im < 2 ^ 31 \<and>
     length (pix im) = height im \<and>
     (\<forall>row \<in> set (pix im). length row = width im \<and>
        (\<forall>p \<in> set row. length p = channels im))"

text \<open>\<^verbatim>\<open>image[y, x, c]\<close> and \<^verbatim>\<open>output[y, x, c] = b\<close> with integer indices; bounds
  checking is switched off in the source, and the loops stay inside the array.\<close>

definition px :: "image \<Rightarrow> nat \<Rightarrow> nat \<Rightarrow> nat \<Rightarrow> DTYPE_t" where
  "px im y x c = pix im ! y ! x ! c"

definition set_px :: "image \<Rightarrow> nat \<Rightarrow> nat \<Rightarrow> nat \<Rightarrow> DTYPE_t \<Rightarrow> image" where
  "set_px im y x c b =
     im\<lparr>pix := (pix im)[y := (pix im ! y)[x := (pix im ! y ! x)[c := b]]]\<rparr>"

text \<open>\<^verbatim>\<open>np.zeros_like(image)\<close>: a new array of the same shape, all zero.\<close>

definition zeros_like :: "image \<Rightarrow> image" where
  "zeros_like im =
     \<lparr>height = height im, width = width im, channels = channels im,
      pix = replicate (height im) (replicate (width im) (replicate (channels im) 0))\<rparr>"

section \<open>Failures\<close>

text \<open>
  \<open>IndexError\<close> is the exception NumPy raises for an integer index outside an axis.
  \<open>Undefined_cast\<close> marks the conversion to the 8-bit type of a double whose integral
  part is not in \<open>0..255\<close>, where C defines no result.
\<close>

datatype failure = IndexError | Undefined_cast

section \<open>Binary64 arithmetic\<close>

text \<open>
  A C \<^verbatim>\<open>double\<close>: a finite value, an infinity or NaN. A finite value is given by
  the rational it denotes; the two zeros are one value here, since the code only
  compares and converts them. \<open>rnd\<close> is rounding to the nearest binary64 value, ties
  to even: 53 significant bits, least exponent \<open>-1022\<close>, overflow from \<open>2^1024\<close> on.
\<close>

datatype double = Finite rat | PInf | NInf | NaN

definition round_even :: "rat \<Rightarrow> int" where
  "round_even x =
     (let f = \<lfloor>x\<rfloor>; d = x - of_int f
      in if d < 1 / 2 then f
         else if 1 / 2 < d then f + 1
         else if even f then f else f + 1)"

text \<open>The binary exponent of a non-zero rational: the \<open>e\<close> with \<open>2^e \<le> \<bar>x\<bar> < 2^(e+1)\<close>.\<close>

definition ilog2 :: "rat \<Rightarrow> int" where
  "ilog2 x =
     (let (a, b) = quotient_of \<bar>x\<bar>; d = bitlen a - bitlen b
      in if 2 powi d \<le> \<bar>x\<bar> then d else d - 1)"

definition rnd :: "rat \<Rightarrow> double" where
  "rnd x =
     (if x = 0 then Finite 0
      else let e = max (ilog2 x) (- 1022);
               u = 2 powi (e - 52);
               r = of_int (round_even (x / u)) * u
           in if 2 powi 1024 \<le> \<bar>r\<bar> then (if 0 < x then PInf else NInf)
              else Finite r)"

fun fadd :: "double \<Rightarrow> double \<Rightarrow> double" where
  "fadd (Finite x) (Finite y) = rnd (x + y)"
| "fadd NaN _ = NaN"
| "fadd _ NaN = NaN"
| "fadd PInf NInf = NaN"
| "fadd NInf PInf = NaN"
| "fadd PInf _ = PInf"
| "fadd _ PInf = PInf"
| "fadd NInf _ = NInf"
| "fadd _ NInf = NInf"

fun fmul_inf :: "bool \<Rightarrow> double \<Rightarrow> double" where
  "fmul_inf pos (Finite x) =
     (if x = 0 then NaN else if (0 < x) = pos then PInf else NInf)"
| "fmul_inf pos PInf = (if pos then PInf else NInf)"
| "fmul_inf pos NInf = (if pos then NInf else PInf)"
| "fmul_inf pos NaN = NaN"

fun fmul :: "double \<Rightarrow> double \<Rightarrow> double" where
  "fmul (Finite x) (Finite y) = rnd (x * y)"
| "fmul NaN _ = NaN"
| "fmul _ NaN = NaN"
| "fmul PInf d = fmul_inf True d"
| "fmul NInf d = fmul_inf False d"
| "fmul d PInf = fmul_inf True d"
| "fmul d NInf = fmul_inf False d"

text \<open>The comparison \<^verbatim>\<open><\<close> of C on doubles: false as soon as an operand is NaN.\<close>

fun flt :: "double \<Rightarrow> double \<Rightarrow> bool" where
  "flt (Finite x) (Finite y) = (x < y)"
| "flt NaN _ = False"
| "flt _ NaN = False"
| "flt _ NInf = False"
| "flt PInf _ = False"
| "flt NInf _ = True"
| "flt _ PInf = True"

text \<open>
  \<^verbatim>\<open>sqrt\<close> of \<^verbatim>\<open>libc.math\<close>, correctly rounded: the integer square root of the
  scaled argument gives the 53-bit significand, and the remainder decides the rounding.
\<close>

primrec isqrt_bits :: "int \<Rightarrow> nat \<Rightarrow> int \<Rightarrow> int" where
  "isqrt_bits n 0 r = r"
| "isqrt_bits n (Suc k) r =
     (let r' = r + 2 ^ k in isqrt_bits n k (if r' * r' \<le> n then r' else r))"

definition isqrt :: "int \<Rightarrow> int" where
  "isqrt n = isqrt_bits n (nat (bitlen n)) 0"

definition rnd_sqrt :: "rat \<Rightarrow> double" where
  "rnd_sqrt x =
     (let q = max (ilog2 x div 2) (- 1022) - 52;
          X = x / 2 powi (2 * q);
          s = isqrt \<lfloor>X\<rfloor>;
          mid = (of_int s + 1 / 2) * (of_int s + 1 / 2);
          m = (if X < mid then s else if mid < X then s + 1
               else if even s then s else s + 1)
      in Finite (of_int m * 2 powi q))"

fun fsqrt :: "double \<Rightarrow> double" where
  "fsqrt (Finite x) = (if x < 0 then NaN else if x = 0 then Finite 0 else rnd_sqrt x)"
| "fsqrt PInf = PInf"
| "fsqrt NInf = NaN"
| "fsqrt NaN = NaN"

text \<open>An 8-bit element used in a double expression: converted exactly.\<close>

definition of_u8 :: "DTYPE_t \<Rightarrow> double" where
  "of_u8 b = Finite (of_nat (unat b))"

text \<open>
  The cast \<^verbatim>\<open><DTYPE_t>v\<close> of a double: the fractional part is dropped (truncation
  toward zero). It is a plain C cast with no error path: for a NaN the compiled code
  stores 0 and goes on. For a value whose integral part is not in \<open>0..255\<close> C defines
  no result; the results below show that no cast of the four filters meets one.
\<close>

definition trunc_zero :: "rat \<Rightarrow> int" where
  "trunc_zero r = (if 0 \<le> r then \<lfloor>r\<rfloor> else \<lceil>r\<rceil>)"

fun to_uint8 :: "double \<Rightarrow> failure + DTYPE_t" where
  "to_uint8 (Finite r) =
     (if - 1 < r \<and> r < 256 then Inr (word_of_int (trunc_zero r)) else Inl Undefined_cast)"
| "to_uint8 NaN = Inr 0"
| "to_uint8 PInf = Inl Undefined_cast"
| "to_uint8 NInf = Inl Undefined_cast"

section \<open>Loops and slices\<close>

text \<open>A \<^verbatim>\<open>for\<close> loop over a range, threading the state and stopping at a failure.\<close>

fun for_each :: "nat list \<Rightarrow> (nat \<Rightarrow> 's \<Rightarrow> failure + 's) \<Rightarrow> 's \<Rightarrow> failure + 's" where
  "for_each [] body s = Inr s"
| "for_each (i # is) body s =
     (case body i s of Inl e \<Rightarrow> Inl e | Inr s' \<Rightarrow> for_each is body s')"

text \<open>The statement \<^verbatim>\<open>output[y, x, c] = <DTYPE_t>v\<close>.\<close>

definition assign_px :: "image \<Rightarrow> nat \<Rightarrow> nat \<Rightarrow> nat \<Rightarrow> double \<Rightarrow> failure + image" where
  "assign_px output y x c v =
     (case to_uint8 v of Inl e \<Rightarrow> Inl e | Inr b \<Rightarrow> Inr (set_px output y x c b))"

text \<open>
  An integer index inside a slicing expression such as \<^verbatim>\<open>image[0, :, :]\<close> is
  checked by NumPy (the \<^verbatim>\<open>boundscheck\<close> directive only covers the all-integer
  element accesses): a negative index counts from the end, and an index outside the
  axis raises \<open>IndexError\<close>.
\<close>

definition np_index :: "nat \<Rightarrow> int \<Rightarrow> failure + nat" where
  "np_index n i =
     (let j = (if i < 0 then i + int n else i)
      in if 0 \<le> j \<and> j < int n then Inr (nat j) else Inl IndexError)"

text \<open>\<^verbatim>\<open>output[i, :, :] = image[i, :, :]\<close>\<close>

definition copy_row :: "image \<Rightarrow> int \<Rightarrow> image \<Rightarrow> failure + image" where
  "copy_row im i output =
     (case np_index (height im) i of
        Inl e \<Rightarrow> Inl e
      | Inr k \<Rightarrow>
          (case np_index (height output) i of
             Inl e \<Rightarrow> Inl e
           | Inr k' \<Rightarrow> Inr (output\<lparr>pix := (pix output)[k' := pix im ! k]\<rparr>)))"

text \<open>\<^verbatim>\<open>output[:, j, :] = image[:, j, :]\<close>\<close>

definition copy_col :: "image \<Rightarrow> int \<Rightarrow> image \<Rightarrow> failure + image" where
  "copy_col im j output =
     (case np_index (width im) j of
        Inl e \<Rightarrow> Inl e
      | Inr k \<Rightarrow>
          (case np_index (width output) j of
             Inl e \<Rightarrow> Inl e
           | Inr k' \<Rightarrow>
               Inr (output\<lparr>pix := map (\<lambda>(orow, irow). orow[k' := irow ! k])
                                     (zip (pix output) (pix im))\<rparr>)))"

text \<open>The four statements under \<^verbatim>\<open># Copy borders\<close>, in the order of the source.\<close>

definition copy_borders :: "image \<Rightarrow> image \<Rightarrow> failure + image" where
  "copy_borders im output =
     (case copy_row im 0 output of
        Inl e \<Rightarrow> Inl e
      | Inr o1 \<Rightarrow>
     (case copy_row im (int (height im) - 1) o1 of
        Inl e \<Rightarrow> Inl e
      | Inr o2 \<Rightarrow>
     (case copy_col im 0 o2 of
        Inl e \<Rightarrow> Inl e
      | Inr o3 \<Rightarrow> copy_col im (int (width im) - 1) o3)))"

section \<open>The filters\<close>

text \<open>
  The two inner loops shared by the convolutions:
  \<^verbatim>\<open>sum_val = 0.0; for ky in range(3): for kx in range(3):
      sum_val += image[y + ky - 1, x + kx - 1, c] * kernel[ky][kx]\<close>
\<close>

definition kernel_sum :: "image \<Rightarrow> double list list \<Rightarrow> nat \<Rightarrow> nat \<Rightarrow> nat \<Rightarrow> double" where
  "kernel_sum im kern y x c =
     fold (\<lambda>ky sum_val.
        fold (\<lambda>kx sum_val.
           fadd sum_val (fmul (of_u8 (px im (y + ky - 1) (x + kx - 1) c)) (kern ! ky ! kx)))
          [0..<3] sum_val)
       [0..<3] (Finite 0)"

text \<open>The weights \<^verbatim>\<open>1.0/16\<close>, \<^verbatim>\<open>2.0/16\<close> and \<^verbatim>\<open>4.0/16\<close> are binary64 values.\<close>

definition blur_kernel :: "double list list" where
  "blur_kernel =
     [[Finite (1 / 16), Finite (2 / 16), Finite (1 / 16)],
      [Finite (2 / 16), Finite (4 / 16), Finite (2 / 16)],
      [Finite (1 / 16), Finite (2 / 16), Finite (1 / 16)]]"

definition gaussian_blur :: "image \<Rightarrow> failure + image" where
  "gaussian_blur im =
     (let height = height im; width = width im; channels = channels im;
          output = zeros_like im
      in case for_each [1..<height - 1] (\<lambda>y.
                for_each [1..<width - 1] (\<lambda>x.
                  for_each [0..<channels] (\<lambda>c output.
                    let sum_val = kernel_sum im blur_kernel y x c
                    in assign_px output y x c sum_val))) output of
           Inl e \<Rightarrow> Inl e
         | Inr output \<Rightarrow> copy_borders im output)"

definition sharpen_kernel :: "double list list" where
  "sharpen_kernel =
     [[Finite 0, Finite (- 1), Finite 0],
      [Finite (- 1), Finite 5, Finite (- 1)],
      [Finite 0, Finite (- 1), Finite 0]]"

text \<open>\<^verbatim>\<open>if sum_val < 0: sum_val = 0 elif sum_val > 255: sum_val = 255\<close>\<close>

definition sharpen_clamp :: "double \<Rightarrow> double" where
  "sharpen_clamp sum_val =
     (if flt sum_val (Finite 0) then Finite 0
      else if flt (Finite 255) sum_val then Finite 255
      else sum_val)"

definition sharpen_filter :: "image \<Rightarrow> failure + image" where
  "sharpen_filter im =
     (let height = height im; width = width im; channels = channels im;
          output = zeros_like im
      in case for_each [1..<height - 1] (\<lambda>y.
                for_each [1..<width - 1] (\<lambda>x.
                  for_each [0..<channels] (\<lambda>c output.
                    let sum_val = kernel_sum im sharpen_kernel y x c;
                        sum_val = sharpen_clamp sum_val
                    in assign_px output y x c sum_val))) output of
           Inl e \<Rightarrow> Inl e
         | Inr output \<Rightarrow> copy_borders im output)"

definition sobel_x :: "double list list" where
  "sobel_x =
     [[Finite (- 1), Finite 0, Finite 1],
      [Finite (- 2), Finite 0, Finite 2],
      [Finite (- 1), Finite 0, Finite 1]]"

definition sobel_y :: "double list list" where
  "sobel_y =
     [[Finite (- 1), Finite (- 2), Finite (- 1)],
      [Finite 0, Finite 0, Finite 0],
      [Finite 1, Finite 2, Finite 1]]"

text \<open>The inner loops of \<^verbatim>\<open>edge_detection\<close> accumulate \<open>gx\<close> and \<open>gy\<close> together.\<close>

definition sobel_sums :: "image \<Rightarrow> nat \<Rightarrow> nat \<Rightarrow> nat \<Rightarrow> double \<times> double" where
  "sobel_sums im y x c =
     fold (\<lambda>ky g.
        fold (\<lambda>kx (gx, gy).
           let p = of_u8 (px im (y + ky - 1) (x + kx - 1) c)
           in (fadd gx (fmul p (sobel_x ! ky ! kx)), fadd gy (fmul p (sobel_y ! ky ! kx))))
          [0..<3] g)
       [0..<3] (Finite 0, Finite 0)"

text \<open>\<^verbatim>\<open>magnitude = sqrt(gx*gx + gy*gy); if magnitude > 255: magnitude = 255\<close>\<close>

definition edge_magnitude :: "double \<times> double \<Rightarrow> double" where
  "edge_magnitude g =
     (let (gx, gy) = g;
          magnitude = fsqrt (fadd (fmul gx gx) (fmul gy gy))
      in if flt (Finite 255) magnitude then Finite 255 else magnitude)"

definition edge_detection :: "image \<Rightarrow> failure + image" where
  "edge_detection im =
     (let height = height im; width = width im; channels = channels im;
          output = zeros_like im
      in for_each [1..<height - 1] (\<lambda>y.
           for_each [1..<width - 1] (\<lambda>x.
             for_each [0..<channels] (\<lambda>c output.
               let magnitude = edge_magnitude (sobel_sums im y x c)
               in assign_px output y x c magnitude))) output)"

text \<open>\<^verbatim>\<open>if new_val > 255: new_val = 255 elif new_val < 0: new_val = 0\<close>\<close>

definition brightness_clamp :: "double \<Rightarrow> double" where
  "brightness_clamp new_val =
     (if flt (Finite 255) new_val then Finite 255
      else if flt new_val (Finite 0) then Finite 0
      else new_val)"

definition adjust_brightness :: "image \<Rightarrow> double \<Rightarrow> failure + image" where
  "adjust_brightness im factor =
     (let height = height im; width = width im; channels = channels im;
          output = zeros_like im
      in for_each [0..<height] (\<lambda>y.
           for_each [0..<width] (\<lambda>x.
             for_each [0..<channels] (\<lambda>c output.
               let new_val = fmul (of_u8 (px im y x c)) factor;
                   new_val = brightness_clamp new_val
               in assign_px output y x c new_val))) output)"

section \<open>Vocabulary of the specification\<close>

text \<open>Positions of an array, its one-pixel frame and its interior.\<close>

definition in_image :: "image \<Rightarrow> nat \<Rightarrow> nat \<Rightarrow> nat \<Rightarrow> bool" where
  "in_image im y x c \<longleftrightarrow> y < height im \<and> x < width im \<and> c < channels im"

definition border :: "image \<Rightarrow> nat \<Rightarrow> nat \<Rightarrow> bool" where
  "border im y x \<longleftrightarrow> y = 0 \<or> y = height im - 1 \<or> x = 0 \<or> x = width im - 1"

definition interior :: "image \<Rightarrow> nat \<Rightarrow> nat \<Rightarrow> bool" where
  "interior im y x \<longleftrightarrow> 1 \<le> y \<and> y + 2 \<le> height im \<and> 1 \<le> x \<and> x + 2 \<le> width im"

definition same_shape :: "image \<Rightarrow> image \<Rightarrow> bool" where
  "same_shape a b \<longleftrightarrow>
     height a = height b \<and> width a = width b \<and> channels a = channels b"

text \<open>
  The weighted sum of the 3x3 neighbourhood as the specification writes it,
  \<open>\<Sum>ky \<Sum>kx input[y+ky-1, x+kx-1, c] * kernel[ky][kx]\<close>, over the rationals.
\<close>

definition weighted_sum :: "image \<Rightarrow> rat list list \<Rightarrow> nat \<Rightarrow> nat \<Rightarrow> nat \<Rightarrow> rat" where
  "weighted_sum im K y x c =
     (\<Sum>ky\<leftarrow>[0..<3]. \<Sum>kx\<leftarrow>[0..<3].
        of_nat (unat (px im (y + ky - 1) (x + kx - 1) c)) * K ! ky ! kx)"

definition spec_blur_weights :: "rat list list" where
  "spec_blur_weights = [[1 / 16, 2 / 16, 1 / 16], [2 / 16, 4 / 16, 2 / 16], [1 / 16, 2 / 16, 1 / 16]]"

definition spec_sharpen_weights :: "rat list list" where
  "spec_sharpen_weights = [[0, - 1, 0], [- 1, 5, - 1], [0, - 1, 0]]"

text \<open>
  The clamp of the specification (below 0 gives 0, above 255 gives 255) and its
  truncation to the 8-bit type; neither says anything about NaN.
\<close>

fun spec_clamp :: "double \<Rightarrow> double" where
  "spec_clamp (Finite r) = Finite (if r < 0 then 0 else if 255 < r then 255 else r)"
| "spec_clamp PInf = Finite 255"
| "spec_clamp NInf = Finite 0"
| "spec_clamp NaN = NaN"

fun spec_truncate :: "double \<Rightarrow> DTYPE_t option" where
  "spec_truncate (Finite r) = Some (word_of_int (trunc_zero r))"
| "spec_truncate _ = None"

definition spec_sharpen_value :: "image \<Rightarrow> nat \<Rightarrow> nat \<Rightarrow> nat \<Rightarrow> DTYPE_t option" where
  "spec_sharpen_value im y x c =
     spec_truncate (spec_clamp (Finite (weighted_sum im spec_sharpen_weights y x c)))"

definition spec_brightness_value :: "DTYPE_t \<Rightarrow> double \<Rightarrow> DTYPE_t option" where
  "spec_brightness_value b factor = spec_truncate (spec_clamp (fmul (of_u8 b) factor))"

text \<open>The comparison \<^verbatim>\<open><=\<close> on doubles.\<close>

fun fle :: "double \<Rightarrow> double \<Rightarrow> bool" where
  "fle (Finite x) (Finite y) = (x \<le> y)"
| "fle NaN _ = False"
| "fle _ NaN = False"
| "fle NInf _ = True"
| "fle _ PInf = True"
| "fle _ NInf = False"
| "fle PInf _ = False"

section \<open>Auxiliary notions for the proofs\<close>

text \<open>A double that is a multiple of \<open>1/16\<close>.\<close>

definition q16 :: "int \<Rightarrow> double" where
  "q16 a = Finite (of_int a / 16)"

text \<open>The element a defined cast stores.\<close>

definition cast_val :: "double \<Rightarrow> DTYPE_t" where
  "cast_val v = (case to_uint8 v of Inr b \<Rightarrow> b | Inl e \<Rightarrow> 0)"

text \<open>
  Loop invariant: \<open>out\<close> has the shape of \<open>out0\<close>, holds \<open>v\<close> at the positions
  of \<open>S\<close> and is unchanged elsewhere.
\<close>

definition written ::
  "image \<Rightarrow> image \<Rightarrow> (nat \<times> nat \<times> nat) set \<Rightarrow> (nat \<Rightarrow> nat \<Rightarrow> nat \<Rightarrow> DTYPE_t) \<Rightarrow> bool" where
  "written out0 out S v \<longleftrightarrow>
     valid_image out \<and> same_shape out out0 \<and>
     (\<forall>y x c. in_image out0 y x c \<longrightarrow>
        px out y x c = (if (y, x, c) \<in> S then v y x c else px out0 y x c))"

text \<open>All elements of the array are \<open>v\<close>.\<close>

definition uniform :: "image \<Rightarrow> DTYPE_t \<Rightarrow> bool" where
  "uniform im v \<longleftrightarrow> (\<forall>row \<in> set (pix im). \<forall>p \<in> set row. \<forall>b \<in> set p. b = v)"

section \<open>Example arrays\<close>

definition sample_image :: image where
  "sample_image =
     \<lparr>height = 3, width = 3, channels = 3,
      pix = [[[10, 20, 30], [40, 50, 60], [70, 80, 90]],
             [[15, 25, 35], [200, 0, 255], [75, 85, 95]],
             [[1, 2, 3], [4, 5, 6], [7, 8, 9]]]\<rparr>"

definition grey_image :: image where
  "grey_image =
     \<lparr>height = 3, width = 4, channels = 3,
      pix = replicate 3 (replicate 4 (replicate 3 100))\<rparr>"

definition small_image :: image where
  "small_image =
     \<lparr>height = 2, width = 3, channels = 3,
      pix = [[[10, 20, 30], [40, 50, 60], [70, 80, 90]],
             [[15, 25, 35], [200, 0, 255], [75, 85, 95]]]\<rparr>"

text \<open>\<^verbatim>\<open>np.zeros((0, 5, 3), dtype=np.uint8)\<close> and \<^verbatim>\<open>np.zeros((2, 0, 3), dtype=np.uint8)\<close>\<close>

definition empty_image :: image where
  "empty_image = \<lparr>height = 0, width = 5, channels = 3, pix = []\<rparr>"

definition no_width_image :: image where
  "no_width_image = \<lparr>height = 2, width = 0, channels = 3, pix = [[], []]\<rparr>"

definition black_pixel :: image where
  "black_pixel = \<lparr>height = 1, width = 1, channels = 3, pix = [[[0, 0, 0]]]\<rparr>"

section \<open>Calls on a heap of arrays\<close>

text \<open>
  Python hands arrays over by reference, and the loops write \<^verbatim>\<open>output\<close> in place.
  A heap is the list of the arrays allocated so far and a reference is an index into
  it. Here each filter is written once more on references: it reads its input through
  the heap at every access, and a call returns the reference of its output together
  with the heap it leaves.
\<close>

type_synonym heap = "image list"

text \<open>\<^verbatim>\<open>np.zeros_like(image)\<close> allocates: the new array gets the next reference.\<close>

definition np_zeros_like :: "heap \<Rightarrow> nat \<Rightarrow> nat \<times> heap" where
  "np_zeros_like hp img = (length hp, hp @ [zeros_like (hp ! img)])"

text \<open>A statement that writes the array at a reference.\<close>

definition in_place :: "nat \<Rightarrow> (image \<Rightarrow> failure + image) \<Rightarrow> heap \<Rightarrow> failure + heap" where
  "in_place r stmt hp =
     (case stmt (hp ! r) of Inl e \<Rightarrow> Inl e | Inr a \<Rightarrow> Inr (hp[r := a]))"

definition gaussian_blur_call :: "heap \<Rightarrow> nat \<Rightarrow> failure + nat \<times> heap" where
  "gaussian_blur_call hp img =
     (let height = height (hp ! img); width = width (hp ! img);
          channels = channels (hp ! img);
          (output, hp) = np_zeros_like hp img
      in case for_each [1..<height - 1] (\<lambda>y.
                for_each [1..<width - 1] (\<lambda>x.
                  for_each [0..<channels] (\<lambda>c hp.
                    let sum_val = kernel_sum (hp ! img) blur_kernel y x c
                    in in_place output (\<lambda>a. assign_px a y x c sum_val) hp))) hp of
           Inl e \<Rightarrow> Inl e
         | Inr hp \<Rightarrow>
             (case in_place output (copy_borders (hp ! img)) hp of
                Inl e \<Rightarrow> Inl e
              | Inr hp \<Rightarrow> Inr (output, hp)))"

definition sharpen_filter_call :: "heap \<Rightarrow> nat \<Rightarrow> failure + nat \<times> heap" where
  "sharpen_filter_call hp img =
     (let height = height (hp ! img); width = width (hp ! img);
          channels = channels (hp ! img);
          (output, hp) = np_zeros_like hp img
      in case for_each [1..<height - 1] (\<lambda>y.
                for_each [1..<width - 1] (\<lambda>x.
                  for_each [0..<channels] (\<lambda>c hp.
                    let sum_val = kernel_sum (hp ! img) sharpen_kernel y x c;
                        sum_val = sharpen_clamp sum_val
                    in in_place output (\<lambda>a. assign_px a y x c sum_val) hp))) hp of
           Inl e \<Rightarrow> Inl e
         | Inr hp \<Rightarrow>
             (case in_place output (copy_borders (hp ! img)) hp of
                Inl e \<Rightarrow> Inl e
              | Inr hp \<Rightarrow> Inr (output, hp)))"

definition edge_detection_call :: "heap \<Rightarrow> nat \<Rightarrow> failure + nat \<times> heap" where
  "edge_detection_call hp img =
     (let height = height (hp ! img); width = width (hp ! img);
          channels = channels (hp ! img);
          (output, hp) = np_zeros_like hp img
      in case for_each [1..<height - 1] (\<lambda>y.
                for_each [1..<width - 1] (\<lambda>x.
                  for_each [0..<channels] (\<lambda>c hp.
                    let magnitude = edge_magnitude (sobel_sums (hp ! img) y x c)
                    in in_place output (\<lambda>a. assign_px a y x c magnitude) hp))) hp of
           Inl e \<Rightarrow> Inl e
         | Inr hp \<Rightarrow> Inr (output, hp))"

definition adjust_brightness_call :: "heap \<Rightarrow> nat \<Rightarrow> double \<Rightarrow> failure + nat \<times> heap" where
  "adjust_brightness_call hp img factor =
     (let height = height (hp ! img); width = width (hp ! img);
          channels = channels (hp ! img);
          (output, hp) = np_zeros_like hp img
      in case for_each [0..<height] (\<lambda>y.
                for_each [0..<width] (\<lambda>x.
                  for_each [0..<channels] (\<lambda>c hp.
                    let new_val = fmul (of_u8 (px (hp ! img) y x c)) factor;
                        new_val = brightness_clamp new_val
                    in in_place output (\<lambda>a. assign_px a y x c new_val) hp))) hp of
           Inl e \<Rightarrow> Inl e
         | Inr hp \<Rightarrow> Inr (output, hp))"

text \<open>
  What a call leaves when the function of the value semantics is right: the old heap
  with the output appended, and the reference of that new array.
\<close>

definition returned :: "heap \<Rightarrow> failure + image \<Rightarrow> failure + nat \<times> heap" where
  "returned hp r = (case r of Inl e \<Rightarrow> Inl e | Inr out \<Rightarrow> Inr (length hp, hp @ [out]))"

definition appended :: "heap \<Rightarrow> failure + image \<Rightarrow> failure + heap" where
  "appended hp r = (case r of Inl e \<Rightarrow> Inl e | Inr out \<Rightarrow> Inr (hp @ [out]))"

section \<open>Binary64 arithmetic: where it is exact\<close>

lemma round_even_of_int: "round_even (of_int n) = n"
  by (simp add: round_even_def)

lemma ilog2_le:
  assumes "x \<noteq> 0"
  shows "2 powi (ilog2 x) \<le> \<bar>x\<bar>"
proof -
  obtain a b where ab: "quotient_of \<bar>x\<bar> = (a, b)" by (cases "quotient_of \<bar>x\<bar>")
  have b: "0 < b" using ab by (rule quotient_of_denom_pos)
  have x: "\<bar>x\<bar> = of_int a / of_int b" using ab by (rule quotient_of_div)
  have a: "0 < a"
  proof -
    have "0 < \<bar>x\<bar>" using assms by simp
    then have "0 < (of_int a :: rat) / of_int b" using x by simp
    then show ?thesis using b by (simp add: zero_less_divide_iff)
  qed
  define d where "d = bitlen a - bitlen b"
  have la: "2 ^ nat (bitlen a - 1) \<le> a" using bitlen_bounds [OF a] by simp
  have ub: "b < 2 ^ nat (bitlen b)" using bitlen_bounds [OF b] by simp
  have ba: "1 \<le> bitlen a" using a bitlen_eq_zero_iff [of a] bitlen_nonneg [of a] by linarith
  have bb: "1 \<le> bitlen b" using b bitlen_eq_zero_iff [of b] bitlen_nonneg [of b] by linarith
  have low: "(2::rat) powi (d - 1) \<le> \<bar>x\<bar>"
  proof -
    have "(2::rat) powi (d - 1) = 2 powi (bitlen a - 1) / 2 powi (bitlen b)"
      unfolding d_def by (simp add: power_int_diff)
    also have "\<dots> = 2 ^ nat (bitlen a - 1) / 2 ^ nat (bitlen b)"
      using ba bb by (simp add: power_int_def)
    also have "\<dots> \<le> of_int a / 2 ^ nat (bitlen b)"
    proof -
      have "(of_int (2 ^ nat (bitlen a - 1)) :: rat) \<le> of_int a" using la by (simp only: of_int_le_iff)
      then show ?thesis by (simp add: divide_right_mono)
    qed
    also have "\<dots> \<le> of_int a / of_int b"
    proof -
      have "(of_int b :: rat) \<le> of_int (2 ^ nat (bitlen b))" using ub by (simp only: of_int_le_iff)
      then have "(of_int b :: rat) \<le> 2 ^ nat (bitlen b)" by simp
      then show ?thesis using a b by (simp add: frac_le)
    qed
    finally show ?thesis using x by simp
  qed
  show ?thesis
  proof (cases "(2::rat) powi d \<le> \<bar>x\<bar>")
    case True
    then show ?thesis by (simp add: ilog2_def ab d_def)
  next
    case False
    then show ?thesis using low by (simp add: ilog2_def ab d_def)
  qed
qed

lemma rnd_exact:
  assumes m: "\<bar>m\<bar> < 2 ^ 53" and q: "- 1074 \<le> q" "q \<le> 971"
  shows "rnd (of_int m * 2 powi q) = Finite (of_int m * 2 powi q)"
proof (cases "m = 0")
  case True
  then show ?thesis by (simp add: rnd_def)
next
  case False
  define x :: rat where "x = of_int m * 2 powi q"
  have x0: "x \<noteq> 0" using False by (simp add: x_def)
  define e where "e = max (ilog2 x) (- 1022)"
  have absx: "\<bar>x\<bar> = of_int \<bar>m\<bar> * 2 powi q" by (simp add: x_def abs_mult)
  have lt: "\<bar>x\<bar> < 2 powi (53 + q)"
  proof -
    have "(of_int \<bar>m\<bar> :: rat) < of_int (2 ^ 53)" using m by (simp only: of_int_less_iff)
    then have "(of_int \<bar>m\<bar> :: rat) * 2 powi q < 2 ^ 53 * 2 powi q"
      by (simp add: zero_less_power_int)
    also have "\<dots> = 2 powi (53 + q)" by (simp add: power_int_add)
    finally show ?thesis using absx by simp
  qed
  have plt: "2 powi (ilog2 x) < (2::rat) powi (53 + q)"
    using ilog2_le [OF x0] lt by linarith
  have "ilog2 x < 53 + q"
  proof (rule ccontr)
    assume "\<not> ilog2 x < 53 + q"
    then have "53 + q \<le> ilog2 x" by simp
    then have "(2::rat) powi (53 + q) \<le> 2 powi (ilog2 x)"
      by (intro power_int_increasing) auto
    then show False using plt by linarith
  qed
  then have eq: "e - 52 \<le> q" using q by (simp add: e_def)
  define k where "k = nat (q - (e - 52))"
  have xu: "x / 2 powi (e - 52) = of_int (m * 2 ^ k)"
  proof -
    have "q = (e - 52) + int k" using eq by (simp add: k_def)
    then have "(2::rat) powi q = 2 powi (e - 52) * 2 ^ k"
      by (metis power_int_add power_int_of_nat zero_neq_numeral)
    then show ?thesis by (simp add: x_def)
  qed
  have r: "of_int (round_even (x / 2 powi (e - 52))) * 2 powi (e - 52) = x"
  proof -
    have "of_int (round_even (x / 2 powi (e - 52))) * (2::rat) powi (e - 52)
          = (x / 2 powi (e - 52)) * 2 powi (e - 52)"
      unfolding xu round_even_of_int ..
    then show ?thesis by simp
  qed
  have small: "\<not> 2 powi 1024 \<le> \<bar>x\<bar>"
  proof -
    have "(2::rat) powi (53 + q) \<le> 2 powi 1024"
      using q by (intro power_int_increasing) auto
    then show ?thesis using lt by linarith
  qed
  show ?thesis
    using x0 r small unfolding rnd_def x_def [symmetric] e_def [symmetric] Let_def
    by simp
qed


lemma q16_exact: "\<bar>a\<bar> < 2 ^ 53 \<Longrightarrow> rnd (of_int a / 16) = Finite (of_int a / 16)"
  using rnd_exact [of a "- 4"] by (simp add: power_int_minus_divide)

lemma rnd_of_int: "\<bar>a\<bar> < 2 ^ 53 \<Longrightarrow> rnd (of_int a) = Finite (of_int a)"
  using rnd_exact [of a 0] by simp

lemma unat_u8_le: "int (unat (b :: DTYPE_t)) \<le> 255"
  using unsigned_less [of b, where ?'a = int] by simp

lemma u8_weight_bound:
  assumes "\<bar>k\<bar> \<le> 128"
  shows "\<bar>int (unat (b :: DTYPE_t)) * k\<bar> \<le> 32640"
proof -
  have "\<bar>int (unat b) * k\<bar> = int (unat b) * \<bar>k\<bar>" by (simp add: abs_mult)
  also have "\<dots> \<le> 255 * 128"
    using unat_u8_le [of b] assms by (intro mult_mono) auto
  finally show ?thesis by simp
qed

lemma fmul_q16:
  assumes "\<bar>k\<bar> \<le> 128"
  shows "fmul (of_u8 b) (q16 k) = q16 (int (unat b) * k)"
proof -
  have "\<bar>int (unat b) * k\<bar> < 2 ^ 53" using u8_weight_bound [OF assms, of b] by simp
  from q16_exact [OF this] show ?thesis by (simp add: of_u8_def q16_def)
qed

lemma fadd_q16:
  assumes "\<bar>a\<bar> + \<bar>b\<bar> < 2 ^ 53"
  shows "fadd (q16 a) (q16 b) = q16 (a + b)"
proof -
  have "\<bar>a + b\<bar> < 2 ^ 53" using assms by linarith
  from q16_exact [OF this] show ?thesis by (simp add: q16_def add_divide_distrib)
qed

lemma sum_q16_bound:
  assumes "\<forall>i<n. \<bar>w i\<bar> \<le> 128"
  shows "\<bar>\<Sum>i<n. int (unat (p i :: DTYPE_t)) * w i\<bar> \<le> 32640 * int n"
  using assms
proof (induction n)
  case 0
  then show ?case by simp
next
  case (Suc n)
  have "\<bar>int (unat (p n)) * w n\<bar> \<le> 32640" using Suc.prems by (intro u8_weight_bound) simp
  moreover have "\<bar>\<Sum>i<n. int (unat (p i)) * w i\<bar> \<le> 32640 * int n"
    using Suc by simp
  ultimately show ?case by simp
qed

lemma fold_q16:
  assumes "\<forall>i<n. \<bar>w i\<bar> \<le> 128" and "\<bar>a\<bar> + 32640 * int n < 2 ^ 53"
  shows "fold (\<lambda>i s. fadd s (fmul (of_u8 (p i)) (q16 (w i)))) [0..<n] (q16 a)
         = q16 (a + (\<Sum>i<n. int (unat (p i)) * w i))"
  using assms
proof (induction n)
  case 0
  then show ?case by simp
next
  case (Suc n)
  have w: "\<bar>w n\<bar> \<le> 128" using Suc.prems by simp
  have b1: "\<bar>\<Sum>i<n. int (unat (p i)) * w i\<bar> \<le> 32640 * int n"
    using Suc.prems by (intro sum_q16_bound) simp
  have b2: "\<bar>int (unat (p n)) * w n\<bar> \<le> 32640" using w by (rule u8_weight_bound)
  have ih: "fold (\<lambda>i s. fadd s (fmul (of_u8 (p i)) (q16 (w i)))) [0..<n] (q16 a)
            = q16 (a + (\<Sum>i<n. int (unat (p i)) * w i))"
    using Suc by simp
  have "\<bar>a + (\<Sum>i<n. int (unat (p i)) * w i)\<bar> + \<bar>int (unat (p n)) * w n\<bar> < 2 ^ 53"
    using b1 b2 Suc.prems(2) by simp
  from fadd_q16 [OF this] show ?case
    by (simp add: ih fmul_q16 [OF w] add.assoc)
qed

lemma fold2_q16:
  assumes "\<forall>j<m. \<forall>i<n. \<bar>w j i\<bar> \<le> 128" and "\<bar>a\<bar> + 32640 * int n * int m < 2 ^ 53"
  shows "fold (\<lambda>j s. fold (\<lambda>i s. fadd s (fmul (of_u8 (p j i)) (q16 (w j i)))) [0..<n] s)
           [0..<m] (q16 a)
         = q16 (a + (\<Sum>j<m. \<Sum>i<n. int (unat (p j i)) * w j i))"
  using assms
proof (induction m)
  case 0
  then show ?case by simp
next
  case (Suc m)
  let ?S = "\<Sum>j<m. \<Sum>i<n. int (unat (p j i)) * w j i"
  have wr: "\<forall>i<n. \<bar>w m i\<bar> \<le> 128" using Suc.prems by simp
  have ih: "fold (\<lambda>j s. fold (\<lambda>i s. fadd s (fmul (of_u8 (p j i)) (q16 (w j i)))) [0..<n] s)
              [0..<m] (q16 a) = q16 (a + ?S)"
  proof -
    have "32640 * int n * int m \<le> 32640 * int n * int (Suc m)"
      by (simp add: algebra_simps)
    then show ?thesis using Suc by simp
  qed
  have bS: "\<bar>?S\<bar> \<le> 32640 * int n * int m"
  proof -
    have "\<bar>?S\<bar> \<le> (\<Sum>j<m. \<bar>\<Sum>i<n. int (unat (p j i)) * w j i\<bar>)" by (rule sum_abs)
    also have "\<dots> \<le> (\<Sum>j<m. 32640 * int n)"
      using Suc.prems by (intro sum_mono sum_q16_bound) simp
    finally show ?thesis by (simp add: mult.commute)
  qed
  have "\<bar>a + ?S\<bar> + 32640 * int n < 2 ^ 53"
  proof -
    have "32640 * int n * int (Suc m) = 32640 * int n * int m + 32640 * int n"
      by (simp add: algebra_simps)
    then show ?thesis using bS Suc.prems(2) by linarith
  qed
  from fold_q16 [OF wr this, of "p m"] show ?case
    by (simp add: ih add.assoc)
qed

lemma upt_3: "[0..<3] = [0, 1, 2]"
  by (simp add: upt_rec)

lemma lessThan_3_sum: "(\<Sum>i<(3::nat). f i) = f 0 + f 1 + (f 2 :: int)"
  by (simp add: eval_nat_numeral lessThan_Suc)

text \<open>The inner loops are exact on a kernel with weights in sixteenths.\<close>

lemma kernel_sum_q16:
  assumes k: "\<forall>ky<3. \<forall>kx<3. kern ! ky ! kx = q16 (w ky kx) \<and> \<bar>w ky kx\<bar> \<le> 128"
  shows "kernel_sum im kern y x c
         = q16 (\<Sum>ky<3. \<Sum>kx<3. int (unat (px im (y + ky - 1) (x + kx - 1) c)) * w ky kx)"
proof -
  have "kernel_sum im kern y x c
        = fold (\<lambda>ky s. fold (\<lambda>kx s. fadd s
             (fmul (of_u8 (px im (y + ky - 1) (x + kx - 1) c)) (q16 (w ky kx)))) [0..<3] s)
           [0..<3] (q16 0)"
    unfolding kernel_sum_def using k by (simp add: upt_3 q16_def)
  also have "\<dots> = q16 (0 + (\<Sum>ky<3. \<Sum>kx<3.
                 int (unat (px im (y + ky - 1) (x + kx - 1) c)) * w ky kx))"
    using k by (intro fold2_q16) auto
  finally show ?thesis by simp
qed

section \<open>Arrays and pixel loops\<close>

lemma valid_imageD:
  assumes "valid_image im" "y < height im"
  shows "length (pix im ! y) = width im"
    and "x < width im \<Longrightarrow> length (pix im ! y ! x) = channels im"
proof -
  have all: "\<forall>row \<in> set (pix im). length row = width im \<and>
               (\<forall>p \<in> set row. length p = channels im)"
    using assms(1) by (simp add: valid_image_def)
  have row: "pix im ! y \<in> set (pix im)" using assms by (simp add: valid_image_def)
  show w: "length (pix im ! y) = width im" using all row by blast
  assume "x < width im"
  then have "pix im ! y ! x \<in> set (pix im ! y)" using w by simp
  then show "length (pix im ! y ! x) = channels im" using all row by blast
qed

lemma valid_image_length: "valid_image im \<Longrightarrow> length (pix im) = height im"
  by (simp add: valid_image_def)

lemma valid_imageI:
  assumes "height im < 2 ^ 31" "width im < 2 ^ 31" "channels im < 2 ^ 31"
    and "length (pix im) = height im"
    and "\<And>y. y < height im \<Longrightarrow> length (pix im ! y) = width im"
    and "\<And>y x. y < height im \<Longrightarrow> x < width im \<Longrightarrow> length (pix im ! y ! x) = channels im"
  shows "valid_image im"
  unfolding valid_image_def
proof (intro conjI ballI)
  fix row assume "row \<in> set (pix im)"
  then obtain y where y: "y < height im" "row = pix im ! y"
    using assms(4) by (metis in_set_conv_nth)
  show "length row = width im" using y assms(5) by simp
  fix p assume "p \<in> set row"
  then obtain x where "x < width im" "p = row ! x"
    using \<open>length row = width im\<close> by (metis in_set_conv_nth)
  then show "length p = channels im" using y assms(6) by simp
qed (use assms in simp_all)

text \<open>Two well-formed arrays of one shape with equal elements are equal.\<close>

lemma image_eqI:
  assumes a: "valid_image a" and b: "valid_image b" and s: "same_shape a b"
    and e: "\<And>y x c. in_image a y x c \<Longrightarrow> px a y x c = px b y x c"
  shows "a = b"
proof -
  have "pix a = pix b"
  proof (rule nth_equalityI)
    show "length (pix a) = length (pix b)"
      using a b s by (simp add: valid_image_length same_shape_def)
    fix y assume "y < length (pix a)"
    then have y: "y < height a" "y < height b"
      using a s by (simp_all add: valid_image_length same_shape_def)
    show "pix a ! y = pix b ! y"
    proof (rule nth_equalityI)
      show "length (pix a ! y) = length (pix b ! y)"
        using valid_imageD(1) [OF a y(1)] valid_imageD(1) [OF b y(2)] s
        by (simp add: same_shape_def)
      fix x assume "x < length (pix a ! y)"
      then have x: "x < width a" "x < width b"
        using valid_imageD(1) [OF a y(1)] s by (simp_all add: same_shape_def)
      show "pix a ! y ! x = pix b ! y ! x"
      proof (rule nth_equalityI)
        show "length (pix a ! y ! x) = length (pix b ! y ! x)"
          using valid_imageD(2) [OF a y(1) x(1)] valid_imageD(2) [OF b y(2) x(2)] s
          by (simp add: same_shape_def)
        fix c assume "c < length (pix a ! y ! x)"
        then have "c < channels a" using valid_imageD(2) [OF a y(1) x(1)] by simp
        then have "in_image a y x c" using y x by (simp add: in_image_def)
        from e [OF this] show "pix a ! y ! x ! c = pix b ! y ! x ! c" by (simp add: px_def)
      qed
    qed
  qed
  then show ?thesis using s by (simp add: same_shape_def)
qed

lemma valid_zeros_like:
  assumes "valid_image im"
  shows "valid_image (zeros_like im)"
  using assms by (auto simp: valid_image_def zeros_like_def)

lemma same_shape_zeros_like: "same_shape (zeros_like im) im"
  by (simp add: same_shape_def zeros_like_def)

lemma px_zeros_like: "in_image im y x c \<Longrightarrow> px (zeros_like im) y x c = 0"
  by (simp add: px_def zeros_like_def in_image_def)

lemma set_px_valid:
  assumes "valid_image out"
  shows "valid_image (set_px out y x c b)"
proof (rule valid_imageI)
  show "length (pix (set_px out y x c b)) = height (set_px out y x c b)"
    using assms by (simp add: set_px_def valid_image_length)
next
  fix y' assume "y' < height (set_px out y x c b)"
  then have y': "y' < height out" by (simp add: set_px_def)
  show "length (pix (set_px out y x c b) ! y') = width (set_px out y x c b)"
    using valid_imageD(1) [OF assms y'] y' assms
    by (cases "y' = y") (simp_all add: set_px_def valid_image_length)
next
  fix y' x' assume "y' < height (set_px out y x c b)" "x' < width (set_px out y x c b)"
  then have yx: "y' < height out" "x' < width out" by (simp_all add: set_px_def)
  show "length (pix (set_px out y x c b) ! y' ! x') = channels (set_px out y x c b)"
    using valid_imageD [OF assms yx(1)] yx assms
    by (cases "y' = y"; cases "x' = x") (simp_all add: set_px_def valid_image_length)
qed (use assms in \<open>simp_all add: set_px_def valid_image_def\<close>)

lemma set_px_shape: "same_shape (set_px out y x c b) out"
  by (simp add: same_shape_def set_px_def)

lemma px_set_px:
  assumes "valid_image out" "in_image out y x c"
  shows "px (set_px out y x c b) y' x' c'
         = (if y' = y \<and> x' = x \<and> c' = c then b else px out y' x' c')"
proof -
  have y: "y < length (pix out)" using assms by (simp add: valid_image_length in_image_def)
  have x: "x < length (pix out ! y)"
    using valid_imageD(1) [OF assms(1)] assms(2) by (simp add: in_image_def)
  have c: "c < length (pix out ! y ! x)"
    using valid_imageD(2) [OF assms(1)] assms(2) by (simp add: in_image_def)
  show ?thesis using y x c
    by (cases "y' = y"; cases "x' = x"; cases "c' = c") (simp_all add: px_def set_px_def)
qed


subsection \<open>The pixel loops\<close>

lemma written_start: "valid_image out0 \<Longrightarrow> written out0 out0 {} v"
  by (simp add: written_def same_shape_def)

lemma cast_val_eq: "to_uint8 d = Inr b \<Longrightarrow> cast_val d = b"
  by (simp add: cast_val_def)

lemma cast_val_defined: "\<exists>b. to_uint8 d = Inr b \<Longrightarrow> to_uint8 d = Inr (cast_val d)"
  by (auto simp: cast_val_def)

lemma assign_px_written:
  assumes w: "written out0 out S v" and i: "in_image out0 y x c"
    and d: "to_uint8 d = Inr (v y x c)"
  shows "\<exists>out'. assign_px out y x c d = Inr out' \<and> written out0 out' (insert (y, x, c) S) v"
proof -
  have vo: "valid_image out" and sh: "same_shape out out0" using w by (simp_all add: written_def)
  have io: "in_image out y x c" using i sh by (simp add: in_image_def same_shape_def)
  have "written out0 (set_px out y x c (v y x c)) (insert (y, x, c) S) v"
    unfolding written_def
  proof (intro conjI allI impI)
    show "valid_image (set_px out y x c (v y x c))" using vo by (rule set_px_valid)
    show "same_shape (set_px out y x c (v y x c)) out0"
      using sh by (simp add: same_shape_def set_px_def)
    fix y' x' c' assume "in_image out0 y' x' c'"
    then have "px out y' x' c' = (if (y', x', c') \<in> S then v y' x' c' else px out0 y' x' c')"
      using w by (simp add: written_def)
    then show "px (set_px out y x c (v y x c)) y' x' c'
               = (if (y', x', c') \<in> insert (y, x, c) S then v y' x' c' else px out0 y' x' c')"
      by (auto simp: px_set_px [OF vo io])
  qed
  then show ?thesis by (simp add: assign_px_def d)
qed

lemma loop_c:
  assumes "written out0 out S v"
    and "\<forall>c \<in> set cs. in_image out0 y x c \<and> to_uint8 (g y x c) = Inr (v y x c)"
  shows "\<exists>out'. for_each cs (\<lambda>c out. assign_px out y x c (g y x c)) out = Inr out' \<and>
           written out0 out' (S \<union> {y} \<times> {x} \<times> set cs) v"
  using assms
proof (induction cs arbitrary: out S)
  case Nil
  then show ?case by simp
next
  case (Cons c cs)
  from Cons.prems obtain out1 where
    o1: "assign_px out y x c (g y x c) = Inr out1" "written out0 out1 (insert (y, x, c) S) v"
    using assign_px_written [of out0 out S v y x c "g y x c"] by auto
  from Cons.IH [OF o1(2)] Cons.prems(2) obtain out' where
    o': "for_each cs (\<lambda>c out. assign_px out y x c (g y x c)) out1 = Inr out'"
        "written out0 out' (insert (y, x, c) S \<union> {y} \<times> {x} \<times> set cs) v"
    by auto
  have "insert (y, x, c) S \<union> {y} \<times> {x} \<times> set cs = S \<union> {y} \<times> {x} \<times> set (c # cs)"
    by auto
  then show ?case using o1 o' by simp
qed

lemma loop_x:
  assumes "written out0 out S v"
    and "\<forall>x \<in> set xs. \<forall>c \<in> set cs. in_image out0 y x c \<and> to_uint8 (g y x c) = Inr (v y x c)"
  shows "\<exists>out'. for_each xs (\<lambda>x. for_each cs (\<lambda>c out. assign_px out y x c (g y x c))) out
                 = Inr out' \<and>
           written out0 out' (S \<union> {y} \<times> set xs \<times> set cs) v"
  using assms
proof (induction xs arbitrary: out S)
  case Nil
  then show ?case by simp
next
  case (Cons x xs)
  from Cons.prems obtain out1 where
    o1: "for_each cs (\<lambda>c out. assign_px out y x c (g y x c)) out = Inr out1"
        "written out0 out1 (S \<union> {y} \<times> {x} \<times> set cs) v"
    using loop_c [of out0 out S v cs y x g] by auto
  from Cons.IH [OF o1(2)] Cons.prems(2) obtain out' where
    o': "for_each xs (\<lambda>x. for_each cs (\<lambda>c out. assign_px out y x c (g y x c))) out1 = Inr out'"
        "written out0 out' (S \<union> {y} \<times> {x} \<times> set cs \<union> {y} \<times> set xs \<times> set cs) v"
    by auto
  have "S \<union> {y} \<times> {x} \<times> set cs \<union> {y} \<times> set xs \<times> set cs = S \<union> {y} \<times> set (x # xs) \<times> set cs"
    by auto
  then show ?case using o1 o' by simp
qed

lemma loop_y:
  assumes "written out0 out S v"
    and "\<forall>y \<in> set ys. \<forall>x \<in> set xs. \<forall>c \<in> set cs.
           in_image out0 y x c \<and> to_uint8 (g y x c) = Inr (v y x c)"
  shows "\<exists>out'. for_each ys (\<lambda>y. for_each xs (\<lambda>x.
                   for_each cs (\<lambda>c out. assign_px out y x c (g y x c)))) out = Inr out' \<and>
           written out0 out' (S \<union> set ys \<times> set xs \<times> set cs) v"
  using assms
proof (induction ys arbitrary: out S)
  case Nil
  then show ?case by simp
next
  case (Cons y ys)
  from Cons.prems obtain out1 where
    o1: "for_each xs (\<lambda>x. for_each cs (\<lambda>c out. assign_px out y x c (g y x c))) out = Inr out1"
        "written out0 out1 (S \<union> {y} \<times> set xs \<times> set cs) v"
    using loop_x [of out0 out S v xs cs y g] by auto
  from Cons.IH [OF o1(2)] Cons.prems(2) obtain out' where
    o': "for_each ys (\<lambda>y. for_each xs (\<lambda>x.
           for_each cs (\<lambda>c out. assign_px out y x c (g y x c)))) out1 = Inr out'"
        "written out0 out' (S \<union> {y} \<times> set xs \<times> set cs \<union> set ys \<times> set xs \<times> set cs) v"
    by auto
  have "S \<union> {y} \<times> set xs \<times> set cs \<union> set ys \<times> set xs \<times> set cs
        = S \<union> set (y # ys) \<times> set xs \<times> set cs"
    by auto
  then show ?case using o1 o' by simp
qed

text \<open>
  The shape of every pixel loop in the source: from the zero array, each position of
  the ranges receives the cast of its value, provided every cast is defined.
\<close>

lemma pixel_loops:
  assumes v: "valid_image im"
    and r: "\<forall>y \<in> set ys. \<forall>x \<in> set xs. \<forall>c \<in> set cs.
              in_image im y x c \<and> (\<exists>b. to_uint8 (g y x c) = Inr b)"
  shows "\<exists>out. for_each ys (\<lambda>y. for_each xs (\<lambda>x.
                  for_each cs (\<lambda>c out. assign_px out y x c (g y x c)))) (zeros_like im) = Inr out \<and>
           valid_image out \<and> same_shape out im \<and>
           (\<forall>y x c. in_image im y x c \<longrightarrow>
              px out y x c = (if y \<in> set ys \<and> x \<in> set xs \<and> c \<in> set cs
                              then cast_val (g y x c) else 0))"
proof -
  let ?z = "zeros_like im"
  have sz: "same_shape ?z im" by (rule same_shape_zeros_like)
  have w0: "written ?z ?z {} (\<lambda>y x c. cast_val (g y x c))"
    using valid_zeros_like [OF v] by (rule written_start)
  have "\<forall>y \<in> set ys. \<forall>x \<in> set xs. \<forall>c \<in> set cs.
          in_image ?z y x c \<and> to_uint8 (g y x c) = Inr (cast_val (g y x c))"
    using r sz by (simp add: in_image_def same_shape_def cast_val_defined)
  from loop_y [OF w0 this] obtain out where
    o: "for_each ys (\<lambda>y. for_each xs (\<lambda>x.
          for_each cs (\<lambda>c out. assign_px out y x c (g y x c)))) ?z = Inr out"
       "written ?z out ({} \<union> set ys \<times> set xs \<times> set cs) (\<lambda>y x c. cast_val (g y x c))"
    by blast
  have "valid_image out" "same_shape out im"
    using o(2) sz by (simp_all add: written_def same_shape_def)
  moreover have "\<forall>y x c. in_image im y x c \<longrightarrow>
                   px out y x c = (if y \<in> set ys \<and> x \<in> set xs \<and> c \<in> set cs
                                   then cast_val (g y x c) else 0)"
  proof (intro allI impI)
    fix y x c assume i: "in_image im y x c"
    then have "in_image ?z y x c" using sz by (simp add: in_image_def same_shape_def)
    then show "px out y x c = (if y \<in> set ys \<and> x \<in> set xs \<and> c \<in> set cs
                               then cast_val (g y x c) else 0)"
      using o(2) px_zeros_like [OF i] by (simp add: written_def)
  qed
  ultimately show ?thesis using o(1) by blast
qed

subsection \<open>The border copies\<close>

lemma np_index_in: "k < n \<Longrightarrow> np_index n (int k) = Inr k"
  by (simp add: np_index_def)

lemma np_index_last: "0 < n \<Longrightarrow> np_index n (int n - 1) = Inr (n - 1)"
  by (auto simp: np_index_def Let_def)

lemma np_index_empty: "np_index 0 i = Inl IndexError"
  by (simp add: np_index_def Let_def)

lemma copy_row_ok:
  assumes im: "valid_image im" and out: "valid_image out" and sh: "same_shape out im"
    and k: "np_index (height im) i = Inr k" "k < height im"
  shows "\<exists>out'. copy_row im i out = Inr out' \<and> valid_image out' \<and> same_shape out' im \<and>
           (\<forall>y x c. px out' y x c = (if y = k then px im y x c else px out y x c))"
proof -
  let ?o = "out\<lparr>pix := (pix out)[k := pix im ! k]\<rparr>"
  have h: "height out = height im" "width out = width im" "channels out = channels im"
    using sh by (simp_all add: same_shape_def)
  have c: "copy_row im i out = Inr ?o" using k h by (simp add: copy_row_def)
  have v: "valid_image ?o"
  proof (rule valid_imageI)
    show "length (pix ?o) = height ?o" using out by (simp add: valid_image_length)
  next
    fix y assume "y < height ?o"
    then have y: "y < height out" "y < height im" using h by simp_all
    show "length (pix ?o ! y) = width ?o"
      using valid_imageD(1) [OF out y(1)] valid_imageD(1) [OF im y(2)] h out y
      by (cases "y = k") (simp_all add: valid_image_length)
  next
    fix y x assume "y < height ?o" "x < width ?o"
    then have yx: "y < height out" "y < height im" "x < width out" "x < width im"
      using h by simp_all
    show "length (pix ?o ! y ! x) = channels ?o"
      using valid_imageD(2) [OF out yx(1) yx(3)] valid_imageD(2) [OF im yx(2) yx(4)] h out yx
      by (cases "y = k") (simp_all add: valid_image_length)
  qed (use out in \<open>simp_all add: valid_image_def\<close>)
  have p: "\<forall>y x c. px ?o y x c = (if y = k then px im y x c else px out y x c)"
    using k(2) h out by (simp add: px_def valid_image_length)
  show ?thesis using c v p sh by (simp add: same_shape_def)
qed

lemma copy_col_ok:
  assumes im: "valid_image im" and out: "valid_image out" and sh: "same_shape out im"
    and k: "np_index (width im) j = Inr k" "k < width im"
  shows "\<exists>out'. copy_col im j out = Inr out' \<and> valid_image out' \<and> same_shape out' im \<and>
           (\<forall>y x c. y < height im \<longrightarrow>
              px out' y x c = (if x = k then px im y x c else px out y x c))"
proof -
  let ?o = "out\<lparr>pix := map (\<lambda>(orow, irow). orow[k := irow ! k]) (zip (pix out) (pix im))\<rparr>"
  have h: "height out = height im" "width out = width im" "channels out = channels im"
    using sh by (simp_all add: same_shape_def)
  have l: "length (pix out) = height im" "length (pix im) = height im"
    using out im h by (simp_all add: valid_image_length)
  have c: "copy_col im j out = Inr ?o" using k h by (simp add: copy_col_def)
  have row: "pix ?o ! y = (pix out ! y)[k := pix im ! y ! k]" if "y < height im" for y
    using that l by simp
  have v: "valid_image ?o"
  proof (rule valid_imageI)
    show "length (pix ?o) = height ?o" using l h by simp
  next
    fix y assume "y < height ?o"
    then have y: "y < height out" "y < height im" using h by simp_all
    show "length (pix ?o ! y) = width ?o"
      using valid_imageD(1) [OF out y(1)] row [OF y(2)] by simp
  next
    fix y x assume "y < height ?o" "x < width ?o"
    then have yx: "y < height out" "y < height im" "x < width out" "x < width im"
      using h by simp_all
    have "k < length (pix im ! y)" using valid_imageD(1) [OF im yx(2)] k(2) by simp
    then show "length (pix ?o ! y ! x) = channels ?o"
      using valid_imageD [OF out yx(1)] valid_imageD [OF im yx(2)] row [OF yx(2)] h k(2) yx
      by (cases "x = k") simp_all
  qed (use out in \<open>simp_all add: valid_image_def\<close>)
  have p: "\<forall>y x c. y < height im \<longrightarrow>
             px ?o y x c = (if x = k then px im y x c else px out y x c)"
  proof (intro allI impI)
    fix y x c assume y: "y < height im"
    have "k < length (pix out ! y)" using valid_imageD(1) [OF out] y h k(2) by simp
    then show "px ?o y x c = (if x = k then px im y x c else px out y x c)"
      unfolding px_def row [OF y] by simp
  qed
  show ?thesis using c v p sh by (simp add: same_shape_def)
qed

lemma copy_borders_ok:
  assumes im: "valid_image im" and out: "valid_image out" and sh: "same_shape out im"
    and h: "0 < height im" and w: "0 < width im"
  shows "\<exists>out'. copy_borders im out = Inr out' \<and> valid_image out' \<and> same_shape out' im \<and>
           (\<forall>y x c. in_image im y x c \<longrightarrow>
              px out' y x c = (if border im y x then px im y x c else px out y x c))"
proof -
  from copy_row_ok [OF im out sh np_index_in [OF h] h] obtain o1 where
    o1: "copy_row im 0 out = Inr o1" "valid_image o1" "same_shape o1 im"
        "\<forall>y x c. px o1 y x c = (if y = 0 then px im y x c else px out y x c)"
    by auto
  have h1: "height im - 1 < height im" using h by simp
  from copy_row_ok [OF im o1(2) o1(3) np_index_last [OF h] h1] obtain o2 where
    o2: "copy_row im (int (height im) - 1) o1 = Inr o2" "valid_image o2" "same_shape o2 im"
        "\<forall>y x c. px o2 y x c = (if y = height im - 1 then px im y x c else px o1 y x c)"
    by auto
  from copy_col_ok [OF im o2(2) o2(3) np_index_in [OF w] w] obtain o3 where
    o3: "copy_col im 0 o2 = Inr o3" "valid_image o3" "same_shape o3 im"
        "\<forall>y x c. y < height im \<longrightarrow> px o3 y x c = (if x = 0 then px im y x c else px o2 y x c)"
    by auto
  have w1: "width im - 1 < width im" using w by simp
  from copy_col_ok [OF im o3(2) o3(3) np_index_last [OF w] w1] obtain o4 where
    o4: "copy_col im (int (width im) - 1) o3 = Inr o4" "valid_image o4" "same_shape o4 im"
        "\<forall>y x c. y < height im \<longrightarrow>
           px o4 y x c = (if x = width im - 1 then px im y x c else px o3 y x c)"
    by auto
  have c: "copy_borders im out = Inr o4"
    using o1(1) o2(1) o3(1) o4(1) by (simp add: copy_borders_def)
  have "\<forall>y x c. in_image im y x c \<longrightarrow>
          px o4 y x c = (if border im y x then px im y x c else px out y x c)"
    using o1(4) o2(4) o3(4) o4(4) by (simp add: in_image_def border_def)
  then show ?thesis using c o4(2,3) by blast
qed

lemma copy_borders_empty:
  assumes sh: "same_shape out im" and e: "height im = 0 \<or> width im = 0"
  shows "copy_borders im out = Inl IndexError"
proof (cases "height im = 0")
  case True
  then show ?thesis by (simp add: copy_borders_def copy_row_def np_index_empty)
next
  case False
  then have w: "width im = 0" and h: "0 < height im" using e by simp_all
  have ho: "height out = height im" using sh by (simp add: same_shape_def)
  have "copy_row im 0 out = Inr (out\<lparr>pix := (pix out)[0 := pix im ! 0]\<rparr>)"
    using h ho np_index_in [OF h] by (simp add: copy_row_def)
  moreover have "copy_row im (int (height im) - 1) (out\<lparr>pix := (pix out)[0 := pix im ! 0]\<rparr>)
                 = Inr (out\<lparr>pix := (pix out)[0 := pix im ! 0, height im - 1 := pix im ! (height im - 1)]\<rparr>)"
    using h ho np_index_last [OF h] by (simp add: copy_row_def)
  ultimately show ?thesis using w
    by (simp add: copy_borders_def copy_col_def np_index_empty)
qed

section \<open>Arithmetic of the filters\<close>

subsection \<open>Casts, clamps and signs\<close>

lemma to_uint8_in_range:
  assumes "0 \<le> r" "r \<le> 255"
  shows "to_uint8 (Finite r) = Inr (word_of_int \<lfloor>r\<rfloor>)"
  using assms by (simp add: trunc_zero_def)

lemma sharpen_clamp_spec: "sharpen_clamp (Finite s) = spec_clamp (Finite s)"
  by (simp add: sharpen_clamp_def)

lemma spec_clamp_cast:
  "to_uint8 (spec_clamp (Finite s)) = Inr (word_of_int (trunc_zero (if s < 0 then 0 else if 255 < s then 255 else s)))"
  by simp

lemma brightness_clamp_spec: "d \<noteq> NaN \<Longrightarrow> brightness_clamp d = spec_clamp d"
  by (cases d) (auto simp: brightness_clamp_def)

lemma spec_clamp_defined:
  assumes "d \<noteq> NaN"
  shows "\<exists>r. spec_clamp d = Finite r \<and> 0 \<le> r \<and> r \<le> 255"
  using assms by (cases d) auto

lemma brightness_cast:
  assumes "d \<noteq> NaN"
  shows "\<exists>b. to_uint8 (brightness_clamp d) = Inr b \<and> spec_truncate (spec_clamp d) = Some b"
proof -
  from spec_clamp_defined [OF assms] obtain r where
    r: "spec_clamp d = Finite r" "0 \<le> r" "r \<le> 255" by blast
  then show ?thesis using brightness_clamp_spec [OF assms] by (simp add: trunc_zero_def)
qed

lemma brightness_clamp_nan: "to_uint8 (brightness_clamp NaN) = Inr 0"
  by (simp add: brightness_clamp_def)

lemma round_even_nonpos: "x \<le> 0 \<Longrightarrow> round_even x \<le> 0"
proof -
  assume x: "x \<le> 0"
  have f: "\<lfloor>x\<rfloor> \<le> 0" using x by (simp add: floor_le_iff)
  show ?thesis
  proof (cases "x = of_int \<lfloor>x\<rfloor>")
    case True
    then show ?thesis using f by (simp add: round_even_def Let_def)
  next
    case False
    then have "of_int \<lfloor>x\<rfloor> < x" using of_int_floor_le [of x] by linarith
    then have "\<lfloor>x\<rfloor> < 0" using x f
      by (metis of_int_0 of_int_less_iff less_le_trans)
    then show ?thesis by (simp add: round_even_def Let_def)
  qed
qed

lemma rnd_nonpos:
  assumes "x \<le> 0"
  shows "rnd x = NInf \<or> (\<exists>r \<le> 0. rnd x = Finite r)"
proof (cases "x = 0")
  case True
  then show ?thesis by (simp add: rnd_def)
next
  case False
  define u :: rat where "u = 2 powi (max (ilog2 x) (- 1022) - 52)"
  have u: "0 < u" by (simp add: u_def zero_less_power_int)
  have "x / u \<le> 0" using assms u by (simp add: divide_le_0_iff)
  then have "round_even (x / u) \<le> 0" by (rule round_even_nonpos)
  then have "(of_int (round_even (x / u)) :: rat) \<le> 0" by simp
  then have r: "of_int (round_even (x / u)) * u \<le> 0" using u by (simp add: mult_le_0_iff)
  show ?thesis
    using False assms r unfolding rnd_def u_def [symmetric] Let_def by auto
qed

lemma isqrt_bits_ge: "r \<le> isqrt_bits n k r"
proof (induction k arbitrary: r)
  case 0
  then show ?case by simp
next
  case (Suc k)
  have a: "r \<le> isqrt_bits n k r" by (rule Suc.IH)
  have "r + 2 ^ k \<le> isqrt_bits n k (r + 2 ^ k)" by (rule Suc.IH)
  then have b: "r \<le> isqrt_bits n k (r + 2 ^ k)" by (smt (verit) zero_le_power)
  show ?case using a b by (simp add: Let_def)
qed

lemma fsqrt_nonneg:
  assumes "0 \<le> x"
  shows "\<exists>r \<ge> 0. fsqrt (Finite x) = Finite r"
proof (cases "x = 0")
  case True
  then show ?thesis by simp
next
  case False
  define q where "q = max (ilog2 x div 2) (- 1022) - 52"
  define s where "s = isqrt \<lfloor>x / 2 powi (2 * q)\<rfloor>"
  have s: "0 \<le> s" unfolding s_def isqrt_def by (rule isqrt_bits_ge)
  have p: "(0::rat) < 2 powi q" by (simp add: zero_less_power_int)
  have "0 \<le> (of_int s :: rat) * 2 powi q" "0 \<le> (of_int (s + 1) :: rat) * 2 powi q"
    using s p by simp_all
  then show ?thesis
    using False assms unfolding fsqrt.simps rnd_sqrt_def q_def [symmetric] Let_def s_def [symmetric]
    by auto
qed


subsection \<open>The kernel sums\<close>

lemma less_3_cases: "k < (3::nat) \<Longrightarrow> k = 0 \<or> k = 1 \<or> k = 2"
  by arith

lemma kernel_sum_weighted:
  assumes k: "\<forall>ky<3. \<forall>kx<3. kern ! ky ! kx = q16 (w ky kx) \<and> \<bar>w ky kx\<bar> \<le> 128 \<and>
                K ! ky ! kx = of_int (w ky kx) / 16"
  shows "kernel_sum im kern y x c = Finite (weighted_sum im K y x c)"
proof -
  have "kernel_sum im kern y x c
        = q16 (\<Sum>ky<3. \<Sum>kx<3. int (unat (px im (y + ky - 1) (x + kx - 1) c)) * w ky kx)"
    using k by (intro kernel_sum_q16) simp
  moreover have "of_int (\<Sum>ky<3. \<Sum>kx<3. int (unat (px im (y + ky - 1) (x + kx - 1) c)) * w ky kx) / 16
                 = weighted_sum im K y x c"
  proof -
    have K: "K ! ky ! kx = of_int (w ky kx) / 16" if "ky < 3" "kx < 3" for ky kx
      using k that by simp
    show ?thesis
      unfolding weighted_sum_def upt_3 lessThan_3_sum
      by (simp add: K add_divide_distrib)
  qed
  ultimately show ?thesis by (simp add: q16_def)
qed

lemma blur_kernel_sum:
  "kernel_sum im blur_kernel y x c = Finite (weighted_sum im spec_blur_weights y x c)"
proof (rule kernel_sum_weighted [where w = "\<lambda>ky kx. [[1, 2, 1], [2, 4, 2], [1, 2, 1]] ! ky ! kx"],
    intro allI impI)
  fix ky kx :: nat assume "ky < 3" "kx < 3"
  then have "(ky = 0 \<or> ky = 1 \<or> ky = 2) \<and> (kx = 0 \<or> kx = 1 \<or> kx = 2)"
    by arith
  then show "blur_kernel ! ky ! kx = q16 ([[1, 2, 1], [2, 4, 2], [1, 2, 1]] ! ky ! kx) \<and>
             \<bar>[[1, 2, 1], [2, 4, 2], [1, 2, 1]] ! ky ! kx\<bar> \<le> (128::int) \<and>
             spec_blur_weights ! ky ! kx
             = of_int ([[1, 2, 1], [2, 4, 2], [1, 2, 1]] ! ky ! kx) / 16"
    by (auto simp: blur_kernel_def spec_blur_weights_def q16_def)
qed

lemma sharpen_kernel_sum:
  "kernel_sum im sharpen_kernel y x c = Finite (weighted_sum im spec_sharpen_weights y x c)"
proof (rule kernel_sum_weighted
    [where w = "\<lambda>ky kx. [[0, - 16, 0], [- 16, 80, - 16], [0, - 16, 0]] ! ky ! kx"],
    intro allI impI)
  fix ky kx :: nat assume "ky < 3" "kx < 3"
  then have "(ky = 0 \<or> ky = 1 \<or> ky = 2) \<and> (kx = 0 \<or> kx = 1 \<or> kx = 2)"
    by arith
  then show "sharpen_kernel ! ky ! kx
             = q16 ([[0, - 16, 0], [- 16, 80, - 16], [0, - 16, 0]] ! ky ! kx) \<and>
             \<bar>[[0, - 16, 0], [- 16, 80, - 16], [0, - 16, 0]] ! ky ! kx\<bar> \<le> (128::int) \<and>
             spec_sharpen_weights ! ky ! kx
             = of_int ([[0, - 16, 0], [- 16, 80, - 16], [0, - 16, 0]] ! ky ! kx) / 16"
    by (auto simp: sharpen_kernel_def spec_sharpen_weights_def q16_def)
qed

lemma u8_rat_nonneg: "0 \<le> (of_nat (unat (b :: DTYPE_t)) :: rat)"
  by (rule of_nat_0_le_iff)

lemma u8_rat_le: "(of_nat (unat (b :: DTYPE_t)) :: rat) \<le> 255"
proof -
  have "unat b \<le> 255" using unsigned_less [of b, where ?'a = nat] by simp
  then have "(of_nat (unat b) :: rat) \<le> of_nat 255" by (simp only: of_nat_le_iff)
  then show ?thesis by (simp only: of_nat_numeral)
qed

lemma blur_sum_expand:
  "weighted_sum im spec_blur_weights y x c =
     (of_nat (unat (px im (y - 1) (x - 1) c)) + 2 * of_nat (unat (px im (y - 1) x c))
      + of_nat (unat (px im (y - 1) (x + 1) c))
      + 2 * of_nat (unat (px im y (x - 1) c)) + 4 * of_nat (unat (px im y x c))
      + 2 * of_nat (unat (px im y (x + 1) c))
      + of_nat (unat (px im (y + 1) (x - 1) c)) + 2 * of_nat (unat (px im (y + 1) x c))
      + of_nat (unat (px im (y + 1) (x + 1) c))) / 16"
  by (simp add: weighted_sum_def spec_blur_weights_def upt_3 add_divide_distrib)

lemma blur_weights_range:
  fixes a b c d e f g h i :: rat
  assumes "0 \<le> a" "a \<le> 255" "0 \<le> b" "b \<le> 255" "0 \<le> c" "c \<le> 255"
    and "0 \<le> d" "d \<le> 255" "0 \<le> e" "e \<le> 255" "0 \<le> f" "f \<le> 255"
    and "0 \<le> g" "g \<le> 255" "0 \<le> h" "h \<le> 255" "0 \<le> i" "i \<le> 255"
  shows "0 \<le> (a + 2 * b + c + 2 * d + 4 * e + 2 * f + g + 2 * h + i) / 16 \<and>
         (a + 2 * b + c + 2 * d + 4 * e + 2 * f + g + 2 * h + i) / 16 \<le> 255"
  using assms by simp

lemma blur_sum_range:
  "0 \<le> weighted_sum im spec_blur_weights y x c \<and> weighted_sum im spec_blur_weights y x c \<le> 255"
  unfolding blur_sum_expand by (rule blur_weights_range) (rule u8_rat_nonneg u8_rat_le)+

lemma blur_cast:
  "to_uint8 (kernel_sum im blur_kernel y x c)
   = Inr (word_of_int \<lfloor>weighted_sum im spec_blur_weights y x c\<rfloor>)"
  unfolding blur_kernel_sum using blur_sum_range [of im y x c] by (intro to_uint8_in_range) simp_all

lemma sharpen_cast:
  "\<exists>b. to_uint8 (sharpen_clamp (kernel_sum im sharpen_kernel y x c)) = Inr b \<and>
        spec_sharpen_value im y x c = Some b"
  by (simp add: sharpen_kernel_sum sharpen_clamp_spec spec_sharpen_value_def)

subsection \<open>What each filter returns\<close>

lemma interior_ranges:
  "y \<in> set [1..<height im - 1] \<and> x \<in> set [1..<width im - 1] \<longleftrightarrow> interior im y x"
  by (auto simp: interior_def)

lemma interior_not_border:
  assumes "y < height im" "x < width im"
  shows "interior im y x \<longleftrightarrow> \<not> border im y x"
  using assms by (auto simp: interior_def border_def)

lemma interior_in_image:
  "interior im y x \<Longrightarrow> c < channels im \<Longrightarrow> in_image im y x c"
  by (simp add: interior_def in_image_def)

lemma gaussian_blur_result:
  assumes v: "valid_image im" and h: "0 < height im" and w: "0 < width im"
  shows "\<exists>out. gaussian_blur im = Inr out \<and> valid_image out \<and> same_shape out im \<and>
           (\<forall>y x c. in_image im y x c \<longrightarrow>
              px out y x c = (if border im y x then px im y x c
                              else word_of_int \<lfloor>weighted_sum im spec_blur_weights y x c\<rfloor>))"
proof -
  let ?g = "\<lambda>y x c. kernel_sum im blur_kernel y x c"
  have "\<forall>y \<in> set [1..<height im - 1]. \<forall>x \<in> set [1..<width im - 1]. \<forall>c \<in> set [0..<channels im].
          in_image im y x c \<and> (\<exists>b. to_uint8 (?g y x c) = Inr b)"
    by (auto simp: in_image_def blur_cast)
  from pixel_loops [OF v this] obtain o1 where
    o1: "for_each [1..<height im - 1] (\<lambda>y. for_each [1..<width im - 1] (\<lambda>x.
           for_each [0..<channels im] (\<lambda>c out. assign_px out y x c (?g y x c)))) (zeros_like im)
         = Inr o1"
        "valid_image o1" "same_shape o1 im"
        "\<forall>y x c. in_image im y x c \<longrightarrow>
           px o1 y x c = (if y \<in> set [1..<height im - 1] \<and> x \<in> set [1..<width im - 1] \<and>
                             c \<in> set [0..<channels im]
                          then cast_val (?g y x c) else 0)"
    by blast
  from copy_borders_ok [OF v o1(2) o1(3) h w] obtain out where
    o: "copy_borders im o1 = Inr out" "valid_image out" "same_shape out im"
       "\<forall>y x c. in_image im y x c \<longrightarrow>
          px out y x c = (if border im y x then px im y x c else px o1 y x c)"
    by blast
  have g: "gaussian_blur im = Inr out" using o1(1) o(1) by (simp add: gaussian_blur_def)
  have "\<forall>y x c. in_image im y x c \<longrightarrow>
          px out y x c = (if border im y x then px im y x c
                          else word_of_int \<lfloor>weighted_sum im spec_blur_weights y x c\<rfloor>)"
  proof (intro allI impI)
    fix y x c assume i: "in_image im y x c"
    show "px out y x c = (if border im y x then px im y x c
                          else word_of_int \<lfloor>weighted_sum im spec_blur_weights y x c\<rfloor>)"
    proof (cases "border im y x")
      case True
      then show ?thesis using o(4) i by simp
    next
      case False
      then have "interior im y x" using i interior_not_border [of y im x] by (simp add: in_image_def)
      then have "y \<in> set [1..<height im - 1] \<and> x \<in> set [1..<width im - 1]"
        by (simp only: interior_ranges)
      then have "px o1 y x c = cast_val (?g y x c)" using o1(4) i by (simp add: in_image_def)
      then show ?thesis using False o(4) i by (simp add: cast_val_eq [OF blur_cast])
    qed
  qed
  then show ?thesis using g o(2,3) by blast
qed

lemma sharpen_filter_result:
  assumes v: "valid_image im" and h: "0 < height im" and w: "0 < width im"
  shows "\<exists>out. sharpen_filter im = Inr out \<and> valid_image out \<and> same_shape out im \<and>
           (\<forall>y x c. in_image im y x c \<longrightarrow>
              (if border im y x then px out y x c = px im y x c
               else spec_sharpen_value im y x c = Some (px out y x c)))"
proof -
  let ?g = "\<lambda>y x c. sharpen_clamp (kernel_sum im sharpen_kernel y x c)"
  have d: "\<exists>b. to_uint8 (?g y x c) = Inr b" for y x c
    using sharpen_cast [of im y x c] by blast
  have "\<forall>y \<in> set [1..<height im - 1]. \<forall>x \<in> set [1..<width im - 1]. \<forall>c \<in> set [0..<channels im].
          in_image im y x c \<and> (\<exists>b. to_uint8 (?g y x c) = Inr b)"
    by (auto simp: in_image_def d)
  from pixel_loops [OF v this] obtain o1 where
    o1: "for_each [1..<height im - 1] (\<lambda>y. for_each [1..<width im - 1] (\<lambda>x.
           for_each [0..<channels im] (\<lambda>c out. assign_px out y x c (?g y x c)))) (zeros_like im)
         = Inr o1"
        "valid_image o1" "same_shape o1 im"
        "\<forall>y x c. in_image im y x c \<longrightarrow>
           px o1 y x c = (if y \<in> set [1..<height im - 1] \<and> x \<in> set [1..<width im - 1] \<and>
                             c \<in> set [0..<channels im]
                          then cast_val (?g y x c) else 0)"
    by blast
  from copy_borders_ok [OF v o1(2) o1(3) h w] obtain out where
    o: "copy_borders im o1 = Inr out" "valid_image out" "same_shape out im"
       "\<forall>y x c. in_image im y x c \<longrightarrow>
          px out y x c = (if border im y x then px im y x c else px o1 y x c)"
    by blast
  have g: "sharpen_filter im = Inr out" using o1(1) o(1) by (simp add: sharpen_filter_def)
  have "\<forall>y x c. in_image im y x c \<longrightarrow>
          (if border im y x then px out y x c = px im y x c
           else spec_sharpen_value im y x c = Some (px out y x c))"
  proof (intro allI impI)
    fix y x c assume i: "in_image im y x c"
    show "if border im y x then px out y x c = px im y x c
          else spec_sharpen_value im y x c = Some (px out y x c)"
    proof (cases "border im y x")
      case True
      then show ?thesis using o(4) i by simp
    next
      case False
      then have "interior im y x" using i interior_not_border [of y im x] by (simp add: in_image_def)
      then have "y \<in> set [1..<height im - 1] \<and> x \<in> set [1..<width im - 1]"
        by (simp only: interior_ranges)
      then have p: "px o1 y x c = cast_val (?g y x c)" using o1(4) i by (simp add: in_image_def)
      from sharpen_cast [of im y x c] obtain b where
        b: "to_uint8 (?g y x c) = Inr b" "spec_sharpen_value im y x c = Some b" by blast
      show ?thesis using False o(4) i p b by (simp add: cast_val_eq [OF b(1)])
    qed
  qed
  then show ?thesis using g o(2,3) by blast
qed

text \<open>Without an interior the loops write nothing.\<close>

lemma for_each_idle:
  "(\<And>i s. i \<in> set is \<Longrightarrow> body i s = Inr s) \<Longrightarrow> for_each is body s = Inr s"
  by (induction "is") simp_all

lemma no_interior_loops:
  assumes "height im < 3 \<or> width im < 3"
  shows "for_each [1..<height im - 1] (\<lambda>y. for_each [1..<width im - 1] (\<lambda>x.
           for_each [0..<channels im] (body y x))) out = Inr out"
proof (cases "height im < 3")
  case True
  then have ys: "[1..<height im - 1] = []" by simp
  show ?thesis unfolding ys by (simp only: for_each.simps)
next
  case False
  then have xs: "[1..<width im - 1] = []" using assms by simp
  show ?thesis unfolding xs by (rule for_each_idle) (simp only: for_each.simps)
qed

lemma gaussian_blur_empty:
  assumes "height im = 0 \<or> width im = 0"
  shows "gaussian_blur im = Inl IndexError"
proof -
  have "height im < 3 \<or> width im < 3" using assms by auto
  from no_interior_loops [OF this] have
    "for_each [1..<height im - 1] (\<lambda>y. for_each [1..<width im - 1] (\<lambda>x.
       for_each [0..<channels im] (\<lambda>c output.
         assign_px output y x c (kernel_sum im blur_kernel y x c)))) (zeros_like im)
     = Inr (zeros_like im)" .
  then show ?thesis
    using copy_borders_empty [OF same_shape_zeros_like assms]
    by (simp add: gaussian_blur_def)
qed

lemma sharpen_filter_empty:
  assumes "height im = 0 \<or> width im = 0"
  shows "sharpen_filter im = Inl IndexError"
proof -
  have "height im < 3 \<or> width im < 3" using assms by auto
  from no_interior_loops [OF this] have
    "for_each [1..<height im - 1] (\<lambda>y. for_each [1..<width im - 1] (\<lambda>x.
       for_each [0..<channels im] (\<lambda>c output.
         assign_px output y x c (sharpen_clamp (kernel_sum im sharpen_kernel y x c)))))
       (zeros_like im)
     = Inr (zeros_like im)" .
  then show ?thesis
    using copy_borders_empty [OF same_shape_zeros_like assms]
    by (simp add: sharpen_filter_def)
qed

lemma small_image_border:
  assumes "height im < 3 \<or> width im < 3" "in_image im y x c"
  shows "border im y x"
  using assms by (auto simp: border_def in_image_def)

lemma gaussian_blur_small:
  assumes v: "valid_image im" and h: "0 < height im" and w: "0 < width im"
    and s: "height im < 3 \<or> width im < 3"
  shows "gaussian_blur im = Inr im"
proof -
  from gaussian_blur_result [OF v h w] obtain out where
    o: "gaussian_blur im = Inr out" "valid_image out" "same_shape out im"
       "\<forall>y x c. in_image im y x c \<longrightarrow>
          px out y x c = (if border im y x then px im y x c
                          else word_of_int \<lfloor>weighted_sum im spec_blur_weights y x c\<rfloor>)"
    by blast
  have "out = im"
  proof (rule image_eqI [OF o(2) v o(3)])
    fix y x c assume "in_image out y x c"
    then have i: "in_image im y x c" using o(3) by (simp add: in_image_def same_shape_def)
    then show "px out y x c = px im y x c" using o(4) small_image_border [OF s i] by simp
  qed
  then show ?thesis using o(1) by simp
qed

lemma sharpen_filter_small:
  assumes v: "valid_image im" and h: "0 < height im" and w: "0 < width im"
    and s: "height im < 3 \<or> width im < 3"
  shows "sharpen_filter im = Inr im"
proof -
  from sharpen_filter_result [OF v h w] obtain out where
    o: "sharpen_filter im = Inr out" "valid_image out" "same_shape out im"
       "\<forall>y x c. in_image im y x c \<longrightarrow>
          (if border im y x then px out y x c = px im y x c
           else spec_sharpen_value im y x c = Some (px out y x c))"
    by blast
  have "out = im"
  proof (rule image_eqI [OF o(2) v o(3)])
    fix y x c assume "in_image out y x c"
    then have i: "in_image im y x c" using o(3) by (simp add: in_image_def same_shape_def)
    then show "px out y x c = px im y x c" using o(4) small_image_border [OF s i] by auto
  qed
  then show ?thesis using o(1) by simp
qed

subsection \<open>Edge detection\<close>

lemma sobel_sums_kernel:
  "sobel_sums im y x c = (kernel_sum im sobel_x y x c, kernel_sum im sobel_y y x c)"
  by (simp add: sobel_sums_def kernel_sum_def upt_3 Let_def)

lemma sum2_q16_bound:
  assumes "\<forall>j<m. \<forall>i<n. \<bar>w j i\<bar> \<le> 128"
  shows "\<bar>\<Sum>j<m. \<Sum>i<n. int (unat (p j i :: DTYPE_t)) * w j i\<bar> \<le> 32640 * int n * int m"
proof -
  have "\<bar>\<Sum>j<m. \<Sum>i<n. int (unat (p j i)) * w j i\<bar>
        \<le> (\<Sum>j<m. \<bar>\<Sum>i<n. int (unat (p j i)) * w j i\<bar>)" by (rule sum_abs)
  also have "\<dots> \<le> (\<Sum>j<m. 32640 * int n)"
    using assms by (intro sum_mono sum_q16_bound) simp
  finally show ?thesis by (simp add: mult.commute)
qed

lemma sobel_q16:
  assumes k: "\<forall>ky<3. \<forall>kx<3. kern ! ky ! kx = q16 (w ky kx) \<and> \<bar>w ky kx\<bar> \<le> 128"
  shows "\<exists>a. kernel_sum im kern y x c = q16 a \<and> \<bar>a\<bar> \<le> 293760"
proof -
  let ?a = "\<Sum>ky<3. \<Sum>kx<3. int (unat (px im (y + ky - 1) (x + kx - 1) c)) * w ky kx"
  have "kernel_sum im kern y x c = q16 ?a" using k by (rule kernel_sum_q16)
  moreover have "\<bar>?a\<bar> \<le> 32640 * int 3 * int 3" using k by (intro sum2_q16_bound) simp
  ultimately show ?thesis by auto
qed

lemma sobel_x_q16: "\<exists>a. kernel_sum im sobel_x y x c = q16 a \<and> \<bar>a\<bar> \<le> 293760"
proof (rule sobel_q16 [where w = "\<lambda>ky kx. [[- 16, 0, 16], [- 32, 0, 32], [- 16, 0, 16]] ! ky ! kx"],
    intro allI impI)
  fix ky kx :: nat assume "ky < 3" "kx < 3"
  then have "(ky = 0 \<or> ky = 1 \<or> ky = 2) \<and> (kx = 0 \<or> kx = 1 \<or> kx = 2)" by arith
  then show "sobel_x ! ky ! kx = q16 ([[- 16, 0, 16], [- 32, 0, 32], [- 16, 0, 16]] ! ky ! kx) \<and>
             \<bar>[[- 16, 0, 16], [- 32, 0, 32], [- 16, 0, 16]] ! ky ! kx\<bar> \<le> (128::int)"
    by (auto simp: sobel_x_def q16_def)
qed

lemma sobel_y_q16: "\<exists>a. kernel_sum im sobel_y y x c = q16 a \<and> \<bar>a\<bar> \<le> 293760"
proof (rule sobel_q16 [where w = "\<lambda>ky kx. [[- 16, - 32, - 16], [0, 0, 0], [16, 32, 16]] ! ky ! kx"],
    intro allI impI)
  fix ky kx :: nat assume "ky < 3" "kx < 3"
  then have "(ky = 0 \<or> ky = 1 \<or> ky = 2) \<and> (kx = 0 \<or> kx = 1 \<or> kx = 2)" by arith
  then show "sobel_y ! ky ! kx = q16 ([[- 16, - 32, - 16], [0, 0, 0], [16, 32, 16]] ! ky ! kx) \<and>
             \<bar>[[- 16, - 32, - 16], [0, 0, 0], [16, 32, 16]] ! ky ! kx\<bar> \<le> (128::int)"
    by (auto simp: sobel_y_def q16_def)
qed

lemma square_bound:
  assumes "\<bar>a\<bar> \<le> (293760::int)"
  shows "0 \<le> a * a \<and> a * a \<le> 86294937600"
proof -
  have "a * a = \<bar>a\<bar> * \<bar>a\<bar>" by simp
  also have "\<dots> \<le> 293760 * 293760" using assms by (intro mult_mono) auto
  finally show ?thesis by simp
qed

lemma fmul_q16_square:
  assumes "\<bar>a\<bar> \<le> 293760"
  shows "fmul (q16 a) (q16 a) = Finite (of_int (a * a) * 2 powi (- 8))"
proof -
  have "\<bar>a * a\<bar> < 2 ^ 53" using square_bound [OF assms] by simp
  from rnd_exact [OF this, of "- 8"] show ?thesis
    by (simp add: q16_def power_int_minus_divide)
qed

lemma edge_cast_defined: "\<exists>b. to_uint8 (edge_magnitude (sobel_sums im y x c)) = Inr b"
proof -
  from sobel_x_q16 obtain a where a: "kernel_sum im sobel_x y x c = q16 a" "\<bar>a\<bar> \<le> 293760"
    by blast
  from sobel_y_q16 obtain b where b: "kernel_sum im sobel_y y x c = q16 b" "\<bar>b\<bar> \<le> 293760"
    by blast
  have sa: "0 \<le> a * a \<and> a * a \<le> 86294937600" using a(2) by (rule square_bound)
  have sb: "0 \<le> b * b \<and> b * b \<le> 86294937600" using b(2) by (rule square_bound)
  have "\<bar>a * a + b * b\<bar> < 2 ^ 53" using sa sb by simp
  from rnd_exact [OF this, of "- 8"]
  have e: "rnd (of_int (a * a + b * b) * 2 powi (- 8))
           = Finite (of_int (a * a + b * b) * 2 powi (- 8))"
    by simp
  have "(of_int (a * a) :: rat) * 2 powi (- 8) + of_int (b * b) * 2 powi (- 8)
        = of_int (a * a + b * b) * 2 powi (- 8)"
    by (simp add: distrib_right)
  then have s: "fadd (fmul (q16 a) (q16 a)) (fmul (q16 b) (q16 b))
                = Finite (of_int (a * a + b * b) * 2 powi (- 8))"
    using e by (simp only: fmul_q16_square [OF a(2)] fmul_q16_square [OF b(2)] fadd.simps)
  have "(0::rat) \<le> of_int (a * a + b * b) * 2 powi (- 8)"
    using sa sb by (intro mult_nonneg_nonneg) (simp_all add: power_int_minus_divide)
  from fsqrt_nonneg [OF this] obtain r where
    r: "0 \<le> r" "fsqrt (Finite (of_int (a * a + b * b) * 2 powi (- 8))) = Finite r"
    by blast
  have "edge_magnitude (sobel_sums im y x c) = (if 255 < r then Finite 255 else Finite r)"
    by (simp only: edge_magnitude_def sobel_sums_kernel a(1) b(1) s r(2) Let_def
        case_prod_conv flt.simps)
  then show ?thesis using r(1) by (simp add: trunc_zero_def)
qed

lemma edge_detection_result:
  assumes v: "valid_image im"
  shows "\<exists>out. edge_detection im = Inr out \<and> valid_image out \<and> same_shape out im \<and>
           (\<forall>y x c. in_image im y x c \<longrightarrow>
              px out y x c = (if interior im y x
                              then cast_val (edge_magnitude (sobel_sums im y x c)) else 0))"
proof -
  let ?g = "\<lambda>y x c. edge_magnitude (sobel_sums im y x c)"
  have "\<forall>y \<in> set [1..<height im - 1]. \<forall>x \<in> set [1..<width im - 1]. \<forall>c \<in> set [0..<channels im].
          in_image im y x c \<and> (\<exists>b. to_uint8 (?g y x c) = Inr b)"
    by (auto simp: in_image_def edge_cast_defined)
  from pixel_loops [OF v this] obtain out where
    o: "for_each [1..<height im - 1] (\<lambda>y. for_each [1..<width im - 1] (\<lambda>x.
          for_each [0..<channels im] (\<lambda>c out. assign_px out y x c (?g y x c)))) (zeros_like im)
        = Inr out"
       "valid_image out" "same_shape out im"
       "\<forall>y x c. in_image im y x c \<longrightarrow>
          px out y x c = (if y \<in> set [1..<height im - 1] \<and> x \<in> set [1..<width im - 1] \<and>
                            c \<in> set [0..<channels im]
                         then cast_val (?g y x c) else 0)"
    by blast
  have e: "edge_detection im = Inr out" using o(1) by (simp add: edge_detection_def)
  have "\<forall>y x c. in_image im y x c \<longrightarrow>
          px out y x c = (if interior im y x then cast_val (?g y x c) else 0)"
  proof (intro allI impI)
    fix y x c assume i: "in_image im y x c"
    have "y \<in> set [1..<height im - 1] \<and> x \<in> set [1..<width im - 1] \<and> c \<in> set [0..<channels im]
          \<longleftrightarrow> interior im y x"
      using i interior_ranges [of y im x] by (simp add: in_image_def)
    then show "px out y x c = (if interior im y x then cast_val (?g y x c) else 0)"
      using o(4) i by simp
  qed
  then show ?thesis using e o(2,3) by blast
qed

lemma edge_detection_small:
  assumes "height im < 3 \<or> width im < 3"
  shows "edge_detection im = Inr (zeros_like im)"
proof -
  from no_interior_loops [OF assms] have
    "for_each [1..<height im - 1] (\<lambda>y. for_each [1..<width im - 1] (\<lambda>x.
       for_each [0..<channels im] (\<lambda>c output.
         assign_px output y x c (edge_magnitude (sobel_sums im y x c))))) (zeros_like im)
     = Inr (zeros_like im)" .
  then show ?thesis by (simp add: edge_detection_def)
qed

subsection \<open>Brightness\<close>

lemma px_in_set:
  assumes "valid_image im" "in_image im y x c"
  shows "\<exists>row \<in> set (pix im). \<exists>p \<in> set row. px im y x c \<in> set p"
proof -
  have y: "y < height im" and x: "x < width im" and c: "c < channels im"
    using assms(2) by (simp_all add: in_image_def)
  have "pix im ! y \<in> set (pix im)" using assms(1) y by (simp add: valid_image_length)
  moreover have "pix im ! y ! x \<in> set (pix im ! y)"
    using valid_imageD(1) [OF assms(1) y] x by simp
  moreover have "px im y x c \<in> set (pix im ! y ! x)"
    using valid_imageD(2) [OF assms(1) y x] c by (simp add: px_def)
  ultimately show ?thesis by blast
qed

text \<open>
  \<^verbatim>\<open>adjust_brightness\<close> returns for every factor: the clamp leaves a value in
  \<open>[0,255]\<close> or a NaN, and both have a cast.
\<close>

lemma adjust_brightness_result:
  assumes v: "valid_image im"
  shows "\<exists>out. adjust_brightness im factor = Inr out \<and> valid_image out \<and> same_shape out im \<and>
           (\<forall>y x c. in_image im y x c \<longrightarrow>
              (fmul (of_u8 (px im y x c)) factor \<noteq> NaN \<longrightarrow>
                 spec_brightness_value (px im y x c) factor = Some (px out y x c)) \<and>
              (fmul (of_u8 (px im y x c)) factor = NaN \<longrightarrow> px out y x c = 0))"
proof -
  let ?p = "\<lambda>y x c. fmul (of_u8 (px im y x c)) factor"
  let ?g = "\<lambda>y x c. brightness_clamp (?p y x c)"
  have d: "\<exists>b. to_uint8 (?g y x c) = Inr b \<and>
             (?p y x c \<noteq> NaN \<longrightarrow> spec_brightness_value (px im y x c) factor = Some b) \<and>
             (?p y x c = NaN \<longrightarrow> b = 0)" for y x c
  proof (cases "?p y x c = NaN")
    case True
    then show ?thesis by (simp add: brightness_clamp_nan)
  next
    case False
    from brightness_cast [OF this] show ?thesis
      using False unfolding spec_brightness_value_def by blast
  qed
  have "\<forall>y \<in> set [0..<height im]. \<forall>x \<in> set [0..<width im]. \<forall>c \<in> set [0..<channels im].
          in_image im y x c \<and> (\<exists>b. to_uint8 (?g y x c) = Inr b)"
  proof (intro ballI)
    fix y x c assume "y \<in> set [0..<height im]" "x \<in> set [0..<width im]" "c \<in> set [0..<channels im]"
    then have i: "in_image im y x c" by (simp add: in_image_def)
    then show "in_image im y x c \<and> (\<exists>b. to_uint8 (?g y x c) = Inr b)"
      using d [of y x c] by blast
  qed
  from pixel_loops [OF v this] obtain out where
    o: "for_each [0..<height im] (\<lambda>y. for_each [0..<width im] (\<lambda>x.
          for_each [0..<channels im] (\<lambda>c out. assign_px out y x c (?g y x c)))) (zeros_like im)
        = Inr out"
       "valid_image out" "same_shape out im"
       "\<forall>y x c. in_image im y x c \<longrightarrow>
          px out y x c = (if y \<in> set [0..<height im] \<and> x \<in> set [0..<width im] \<and>
                            c \<in> set [0..<channels im]
                         then cast_val (?g y x c) else 0)"
    by blast
  have a: "adjust_brightness im factor = Inr out" using o(1) by (simp add: adjust_brightness_def)
  have "\<forall>y x c. in_image im y x c \<longrightarrow>
          (?p y x c \<noteq> NaN \<longrightarrow> spec_brightness_value (px im y x c) factor = Some (px out y x c)) \<and>
          (?p y x c = NaN \<longrightarrow> px out y x c = 0)"
  proof (intro allI impI)
    fix y x c assume i: "in_image im y x c"
    from d [of y x c] obtain b where
      b: "to_uint8 (?g y x c) = Inr b"
         "?p y x c \<noteq> NaN \<longrightarrow> spec_brightness_value (px im y x c) factor = Some b"
         "?p y x c = NaN \<longrightarrow> b = 0"
      by blast
    have "px out y x c = cast_val (?g y x c)" using o(4) i by (simp add: in_image_def)
    then have "px out y x c = b" by (simp add: cast_val_eq [OF b(1)])
    then show "(?p y x c \<noteq> NaN \<longrightarrow>
                  spec_brightness_value (px im y x c) factor = Some (px out y x c)) \<and>
               (?p y x c = NaN \<longrightarrow> px out y x c = 0)"
      using b(2,3) by simp
  qed
  then show ?thesis using a o(2,3) by blast
qed

lemma fmul_one: "fmul (of_u8 b) (Finite 1) = Finite (of_nat (unat b))"
proof -
  have "\<bar>int (unat b)\<bar> < 2 ^ 53" using unat_u8_le [of b] by simp
  from rnd_of_int [OF this] show ?thesis by (simp add: of_u8_def)
qed

lemma spec_clamp_of_nat:
  "n \<le> 255 \<Longrightarrow> spec_truncate (spec_clamp (Finite (of_nat n))) = Some (word_of_nat n)"
  by (simp add: trunc_zero_def)

lemma brightness_one: "spec_brightness_value b (Finite 1) = Some b"
proof -
  have "unat b \<le> 255" using unsigned_less [of b, where ?'a = nat] by simp
  from spec_clamp_of_nat [OF this] show ?thesis
    by (simp add: spec_brightness_value_def fmul_one)
qed

lemma brightness_nonpos:
  assumes f: "fle factor (Finite 0)" and n: "fmul (of_u8 b) factor \<noteq> NaN"
  shows "spec_brightness_value b factor = Some 0"
proof (cases factor)
  case (Finite f')
  then have "f' \<le> 0" using f by simp
  then have "of_nat (unat b) * f' \<le> 0" by (intro mult_nonneg_nonpos u8_rat_nonneg)
  from rnd_nonpos [OF this] show ?thesis
    by (auto simp: spec_brightness_value_def of_u8_def Finite trunc_zero_def)
next
  case PInf
  then show ?thesis using f by simp
next
  case NInf
  then show ?thesis using n u8_rat_nonneg [of b]
    by (auto simp: spec_brightness_value_def of_u8_def trunc_zero_def split: if_splits)
next
  case NaN
  then show ?thesis using f by simp
qed

subsection \<open>Facts about the example arrays\<close>

lemma rnd_not_nan: "rnd x \<noteq> NaN"
  by (simp add: rnd_def Let_def)

lemma valid_sample_image: "valid_image sample_image"
  by (simp add: valid_image_def sample_image_def)

lemma valid_grey_image: "valid_image grey_image"
  by (simp add: valid_image_def grey_image_def)

lemma valid_small_image: "valid_image small_image"
  by (simp add: valid_image_def small_image_def)

lemma valid_empty_image: "valid_image empty_image"
  by (simp add: valid_image_def empty_image_def)

lemma valid_no_width_image: "valid_image no_width_image"
  by (simp add: valid_image_def no_width_image_def)

lemma valid_black_pixel: "valid_image black_pixel"
  by (simp add: valid_image_def black_pixel_def)

lemma uniform_px:
  assumes "valid_image im" "uniform im v" "in_image im y x c"
  shows "px im y x c = v"
  using px_in_set [OF assms(1,3)] assms(2) unfolding uniform_def by blast


subsection \<open>Calls on a heap\<close>

lemma in_place_new:
  "in_place (length hp) stmt (hp @ [a]) = appended hp (stmt a)"
  by (simp add: in_place_def appended_def split: sum.splits)

lemma for_each_appended:
  assumes "\<And>i s. i \<in> set is \<Longrightarrow> bodyH i (hp @ [s]) = appended hp (bodyP i s)"
  shows "for_each is bodyH (hp @ [s]) = appended hp (for_each is bodyP s)"
  using assms
proof (induction "is" arbitrary: s)
  case Nil
  then show ?case by (simp add: appended_def)
next
  case (Cons i "is")
  show ?case
  proof (cases "bodyP i s")
    case (Inl e)
    then show ?thesis using Cons.prems [of i s] by (simp add: appended_def)
  next
    case (Inr s')
    then have "bodyH i (hp @ [s]) = Inr (hp @ [s'])"
      using Cons.prems [of i s] by (simp add: appended_def)
    then show ?thesis using Inr Cons.IH [of s'] Cons.prems by simp
  qed
qed

text \<open>
  The three pixel loops on the heap, with the input read through the heap at every
  access, do to the new array what the loops of the value semantics do.
\<close>

lemma pixel_loops_call:
  assumes "img < length hp"
  shows "for_each ys (\<lambda>y. for_each xs (\<lambda>x. for_each cs (\<lambda>c h.
           in_place (length hp) (\<lambda>a. assign_px a y x c (g (h ! img) y x c)) h))) (hp @ [out])
         = appended hp (for_each ys (\<lambda>y. for_each xs (\<lambda>x. for_each cs (\<lambda>c a.
             assign_px a y x c (g (hp ! img) y x c)))) out)"
proof (rule for_each_appended, rule for_each_appended, rule for_each_appended)
  fix y x c s
  have "(hp @ [s]) ! img = hp ! img" using assms by (simp add: nth_append)
  then show "in_place (length hp) (\<lambda>a. assign_px a y x c (g ((hp @ [s]) ! img) y x c)) (hp @ [s])
             = appended hp (assign_px s y x c (g (hp ! img) y x c))"
    by (simp add: in_place_new)
qed

lemma gaussian_blur_call_eq:
  assumes "img < length hp"
  shows "gaussian_blur_call hp img = returned hp (gaussian_blur (hp ! img))"
proof -
  have i: "(hp @ [a]) ! img = hp ! img" for a using assms by (simp add: nth_append)
  show ?thesis
    unfolding gaussian_blur_call_def gaussian_blur_def np_zeros_like_def Let_def case_prod_conv
    using pixel_loops_call [OF assms, of _ _ _ "\<lambda>im y x c. kernel_sum im blur_kernel y x c"]
    by (auto simp: i returned_def appended_def in_place_new split: sum.splits)
qed

lemma sharpen_filter_call_eq:
  assumes "img < length hp"
  shows "sharpen_filter_call hp img = returned hp (sharpen_filter (hp ! img))"
proof -
  have i: "(hp @ [a]) ! img = hp ! img" for a using assms by (simp add: nth_append)
  show ?thesis
    unfolding sharpen_filter_call_def sharpen_filter_def np_zeros_like_def Let_def case_prod_conv
    using pixel_loops_call [OF assms, of _ _ _
        "\<lambda>im y x c. sharpen_clamp (kernel_sum im sharpen_kernel y x c)"]
    by (auto simp: i returned_def appended_def in_place_new split: sum.splits)
qed

lemma edge_detection_call_eq:
  assumes "img < length hp"
  shows "edge_detection_call hp img = returned hp (edge_detection (hp ! img))"
proof -
  have i: "(hp @ [a]) ! img = hp ! img" for a using assms by (simp add: nth_append)
  show ?thesis
    unfolding edge_detection_call_def edge_detection_def np_zeros_like_def Let_def case_prod_conv
    using pixel_loops_call [OF assms, of _ _ _
        "\<lambda>im y x c. edge_magnitude (sobel_sums im y x c)"]
    by (auto simp: i returned_def appended_def split: sum.splits)
qed

lemma adjust_brightness_call_eq:
  assumes "img < length hp"
  shows "adjust_brightness_call hp img factor
         = returned hp (adjust_brightness (hp ! img) factor)"
proof -
  have i: "(hp @ [a]) ! img = hp ! img" for a using assms by (simp add: nth_append)
  show ?thesis
    unfolding adjust_brightness_call_def adjust_brightness_def np_zeros_like_def Let_def
      case_prod_conv
    using pixel_loops_call [OF assms, of _ _ _
        "\<lambda>im y x c. brightness_clamp (fmul (of_u8 (px im y x c)) factor)"]
    by (auto simp: i returned_def appended_def split: sum.splits)
qed

section \<open>The claims\<close>

text \<open>
  C1. For every image with height and width at least 3, \<open>sharpen_filter\<close> returns an
  array whose every interior element (\<open>1 \<le> y \<le> height - 2\<close>, \<open>1 \<le> x \<le> width - 2\<close>,
  each channel) is the 3x3 weighted sum of the input neighbourhood with the kernel
  \<open>[[0,-1,0],[-1,5,-1],[0,-1,0]]\<close>, clamped to \<open>[0,255]\<close> (below 0 gives 0, above
  255 gives 255) and then truncated toward zero to the 8-bit type.
\<close>

theorem sharpen_interior:
  assumes "valid_image im" "3 \<le> height im" "3 \<le> width im"
  shows "\<exists>out. sharpen_filter im = Inr out \<and>
           (\<forall>y x c. 1 \<le> y \<and> y \<le> height im - 2 \<and> 1 \<le> x \<and> x \<le> width im - 2 \<and> c < channels im
              \<longrightarrow> spec_sharpen_value im y x c = Some (px out y x c))"
proof -
  have h: "0 < height im" and w: "0 < width im" using assms by simp_all
  from sharpen_filter_result [OF assms(1) h w] obtain out where
    o: "sharpen_filter im = Inr out"
       "\<forall>y x c. in_image im y x c \<longrightarrow>
          (if border im y x then px out y x c = px im y x c
           else spec_sharpen_value im y x c = Some (px out y x c))"
    by blast
  have "spec_sharpen_value im y x c = Some (px out y x c)"
    if "1 \<le> y \<and> y \<le> height im - 2 \<and> 1 \<le> x \<and> x \<le> width im - 2 \<and> c < channels im"
    for y x c
  proof -
    have i: "in_image im y x c" using that assms(2,3) by (auto simp: in_image_def)
    have "\<not> border im y x" using that assms(2,3) by (auto simp: border_def)
    then show ?thesis using o(2) i by simp
  qed
  then show ?thesis using o(1) by blast
qed

theorem sharpen_interior_witness:
  "valid_image sample_image \<and> 3 \<le> height sample_image \<and> 3 \<le> width sample_image \<and>
   (\<exists>out. sharpen_filter sample_image = Inr out \<and>
      (\<forall>y x c. 1 \<le> y \<and> y \<le> height sample_image - 2 \<and> 1 \<le> x \<and> x \<le> width sample_image - 2 \<and>
         c < channels sample_image
         \<longrightarrow> spec_sharpen_value sample_image y x c = Some (px out y x c)))"
proof -
  have h: "3 \<le> height sample_image" and w: "3 \<le> width sample_image"
    by (simp_all add: sample_image_def)
  show ?thesis
    using sharpen_interior [OF valid_sample_image h w] valid_sample_image h w by blast
qed

text \<open>
  C2. Every element of the one-pixel frame of an input image (row 0, row
  \<open>height - 1\<close>, column 0, column \<open>width - 1\<close>, every channel) is found unchanged in
  the array \<open>gaussian_blur\<close> returns, and in the array \<open>sharpen_filter\<close> returns.
\<close>

theorem border_copied:
  assumes "valid_image im" "in_image im y x c" "border im y x"
  shows "(\<exists>out. gaussian_blur im = Inr out \<and> px out y x c = px im y x c) \<and>
         (\<exists>out. sharpen_filter im = Inr out \<and> px out y x c = px im y x c)"
proof -
  have h: "0 < height im" and w: "0 < width im" using assms(2) by (simp_all add: in_image_def)
  from gaussian_blur_result [OF assms(1) h w] obtain o1 where
    o1: "gaussian_blur im = Inr o1"
        "\<forall>y x c. in_image im y x c \<longrightarrow>
           px o1 y x c = (if border im y x then px im y x c
                          else word_of_int \<lfloor>weighted_sum im spec_blur_weights y x c\<rfloor>)"
    by blast
  from sharpen_filter_result [OF assms(1) h w] obtain o2 where
    o2: "sharpen_filter im = Inr o2"
        "\<forall>y x c. in_image im y x c \<longrightarrow>
           (if border im y x then px o2 y x c = px im y x c
            else spec_sharpen_value im y x c = Some (px o2 y x c))"
    by blast
  have "px o1 y x c = px im y x c" using o1(2) assms(2,3) by simp
  moreover have "px o2 y x c = px im y x c" using o2(2) assms(2,3) by auto
  ultimately show ?thesis using o1(1) o2(1) by blast
qed

theorem border_copied_witness:
  "valid_image sample_image \<and> in_image sample_image 2 1 0 \<and> border sample_image 2 1 \<and>
   (\<exists>out. gaussian_blur sample_image = Inr out \<and> px out 2 1 0 = 4) \<and>
   (\<exists>out. sharpen_filter sample_image = Inr out \<and> px out 2 1 0 = 4)"
proof -
  have i: "in_image sample_image 2 1 0" by (simp add: in_image_def sample_image_def)
  have b: "border sample_image 2 1" by (simp add: border_def sample_image_def)
  have p: "px sample_image 2 1 0 = 4" by (simp add: px_def sample_image_def)
  show ?thesis
    using border_copied [OF valid_sample_image i b] valid_sample_image i b
    unfolding p by blast
qed

text \<open>
  C3. \<open>edge_detection\<close> returns, for every input image, an array whose frame
  elements (row 0, row \<open>height - 1\<close>, column 0, column \<open>width - 1\<close>, every channel) are
  all zero: no input element is copied.
\<close>

theorem edge_border_zero:
  assumes "valid_image im"
  shows "\<exists>out. edge_detection im = Inr out \<and>
           (\<forall>y x c. in_image im y x c \<and> border im y x \<longrightarrow> px out y x c = 0)"
proof -
  from edge_detection_result [OF assms] obtain out where
    o: "edge_detection im = Inr out"
       "\<forall>y x c. in_image im y x c \<longrightarrow>
          px out y x c = (if interior im y x
                          then cast_val (edge_magnitude (sobel_sums im y x c)) else 0)"
    by blast
  have "px out y x c = 0" if "in_image im y x c \<and> border im y x" for y x c
  proof -
    have "\<not> interior im y x"
      using that interior_not_border [of y im x] by (simp add: in_image_def)
    then show ?thesis using o(2) that by simp
  qed
  then show ?thesis using o(1) by blast
qed

theorem edge_border_zero_witness:
  "valid_image sample_image \<and>
   (\<exists>out. edge_detection sample_image = Inr out \<and>
      (\<forall>y x c. in_image sample_image y x c \<and> border sample_image y x \<longrightarrow> px out y x c = 0))"
  using edge_border_zero [OF valid_sample_image] valid_sample_image by blast

text \<open>
  C4. For every input image and every floating-point factor, negative ones included
  (the factor is not validated), \<open>adjust_brightness\<close> returns an array whose every
  element, frame included, is \<open>clamp(input[y,x,c] * factor, 0, 255)\<close> truncated toward
  zero to the 8-bit type, and so lies in \<open>[0,255]\<close>. Where the product is NaN (the
  factor is NaN, or it is infinite and the element is 0) the clamp has no value; the
  element stored there is 0.
\<close>

theorem brightness_clamped:
  assumes "valid_image im"
  shows "\<exists>out. adjust_brightness im factor = Inr out \<and> same_shape out im \<and>
           (\<forall>y x c. in_image im y x c \<longrightarrow>
              (fmul (of_u8 (px im y x c)) factor \<noteq> NaN \<longrightarrow>
                 spec_brightness_value (px im y x c) factor = Some (px out y x c)) \<and>
              (fmul (of_u8 (px im y x c)) factor = NaN \<longrightarrow> px out y x c = 0) \<and>
              unat (px out y x c) \<le> 255)"
proof -
  from adjust_brightness_result [OF assms, of factor] obtain out where
    o: "adjust_brightness im factor = Inr out" "same_shape out im"
       "\<forall>y x c. in_image im y x c \<longrightarrow>
          (fmul (of_u8 (px im y x c)) factor \<noteq> NaN \<longrightarrow>
             spec_brightness_value (px im y x c) factor = Some (px out y x c)) \<and>
          (fmul (of_u8 (px im y x c)) factor = NaN \<longrightarrow> px out y x c = 0)"
    by blast
  have "unat (px out y x c) \<le> 255" for y x c
    using unsigned_less [of "px out y x c", where ?'a = nat] by simp
  then show ?thesis using o by blast
qed

theorem brightness_clamped_witness:
  "valid_image sample_image \<and> in_image sample_image 0 0 0 \<and> in_image sample_image 1 1 1 \<and>
   fmul (of_u8 (px sample_image 0 0 0)) PInf \<noteq> NaN \<and>
   fmul (of_u8 (px sample_image 1 1 1)) PInf = NaN \<and>
   (\<exists>out. adjust_brightness sample_image PInf = Inr out \<and> same_shape out sample_image \<and>
      spec_brightness_value (px sample_image 0 0 0) PInf = Some (px out 0 0 0) \<and>
      px out 0 0 0 = 255 \<and> px out 1 1 1 = 0)"
proof -
  have i: "in_image sample_image 0 0 0" and j: "in_image sample_image 1 1 1"
    by (simp_all add: in_image_def sample_image_def)
  have p: "px sample_image 0 0 0 = 10" and q: "px sample_image 1 1 1 = 0"
    by (simp_all add: px_def sample_image_def)
  have a: "fmul (of_u8 (px sample_image 0 0 0)) PInf \<noteq> NaN" by (simp add: p of_u8_def)
  have b: "fmul (of_u8 (px sample_image 1 1 1)) PInf = NaN"
    unfolding q by (simp add: of_u8_def)
  have c: "spec_brightness_value (px sample_image 0 0 0) PInf = Some 255"
    by (simp add: p of_u8_def spec_brightness_value_def trunc_zero_def)
  from brightness_clamped [OF valid_sample_image, of PInf] obtain out where
    o: "adjust_brightness sample_image PInf = Inr out" "same_shape out sample_image"
       "\<forall>y x c. in_image sample_image y x c \<longrightarrow>
          (fmul (of_u8 (px sample_image y x c)) PInf \<noteq> NaN \<longrightarrow>
             spec_brightness_value (px sample_image y x c) PInf = Some (px out y x c)) \<and>
          (fmul (of_u8 (px sample_image y x c)) PInf = NaN \<longrightarrow> px out y x c = 0) \<and>
          unat (px out y x c) \<le> 255"
    by blast
  have "spec_brightness_value (px sample_image 0 0 0) PInf = Some (px out 0 0 0)"
    using o(3) i a by blast
  moreover from this have "px out 0 0 0 = 255" using c by simp
  moreover have "px out 1 1 1 = 0" using o(3) j b by blast
  ultimately show ?thesis using valid_sample_image i j a b o(1,2) by blast
qed

text \<open>
  C5. As stated the claim fails: on an image with height 0 the first border copy of
  \<open>gaussian_blur\<close>, \<^verbatim>\<open>output[0, :, :] = image[0, :, :]\<close>, raises \<open>IndexError\<close>.
\<close>

theorem degenerate_size_counterexample:
  "valid_image empty_image \<and> height empty_image < 3 \<and>
   gaussian_blur empty_image = Inl IndexError"
proof -
  have "gaussian_blur empty_image = Inl IndexError" by code_simp
  then show ?thesis using valid_empty_image by (simp add: empty_image_def)
qed

text \<open>
  C5, amended. For every input image with height < 3 or width < 3 the interior loops
  write nothing and \<open>edge_detection\<close> returns the all-zero image; if moreover
  height and width are at least 1, \<open>gaussian_blur\<close> and \<open>sharpen_filter\<close> return an
  array equal to the input element for element, and if height or width is 0 their
  border copies raise \<open>IndexError\<close>. \<open>adjust_brightness\<close> raises no error: it returns
  for every factor.
\<close>

theorem degenerate_size:
  assumes "valid_image im" "height im < 3 \<or> width im < 3"
  shows "edge_detection im = Inr (zeros_like im) \<and>
         (0 < height im \<and> 0 < width im \<longrightarrow>
            gaussian_blur im = Inr im \<and> sharpen_filter im = Inr im) \<and>
         (height im = 0 \<or> width im = 0 \<longrightarrow>
            gaussian_blur im = Inl IndexError \<and> sharpen_filter im = Inl IndexError) \<and>
         (\<forall>factor. \<exists>out. adjust_brightness im factor = Inr out)"
proof -
  have "\<exists>out. adjust_brightness im factor = Inr out" for factor
    using adjust_brightness_result [OF assms(1), of factor] by blast
  then show ?thesis
    using assms edge_detection_small gaussian_blur_small sharpen_filter_small
      gaussian_blur_empty sharpen_filter_empty
    by blast
qed

theorem degenerate_size_witness:
  "valid_image small_image \<and> (height small_image < 3 \<or> width small_image < 3) \<and>
   edge_detection small_image = Inr (zeros_like small_image) \<and>
   gaussian_blur small_image = Inr small_image \<and>
   sharpen_filter small_image = Inr small_image \<and>
   valid_image no_width_image \<and> (height no_width_image < 3 \<or> width no_width_image < 3) \<and>
   gaussian_blur no_width_image = Inl IndexError \<and>
   sharpen_filter no_width_image = Inl IndexError \<and>
   (\<exists>out. adjust_brightness small_image NaN = Inr out) \<and>
   (\<exists>out. adjust_brightness no_width_image NaN = Inr out)"
proof -
  have s: "height small_image < 3 \<or> width small_image < 3" by (simp add: small_image_def)
  have p: "0 < height small_image \<and> 0 < width small_image" by (simp add: small_image_def)
  have n: "height no_width_image < 3 \<or> width no_width_image < 3"
    by (simp add: no_width_image_def)
  have z: "height no_width_image = 0 \<or> width no_width_image = 0"
    by (simp add: no_width_image_def)
  show ?thesis
    using degenerate_size [OF valid_small_image s] degenerate_size [OF valid_no_width_image n]
      valid_small_image valid_no_width_image s p n z
    by blast
qed

text \<open>
  C6. For every valid image, \<open>adjust_brightness\<close> with the factor exactly 1.0 returns
  an array equal to the input, element for element.
\<close>

theorem brightness_identity:
  assumes "valid_image im"
  shows "adjust_brightness im (Finite 1) = Inr im"
proof -
  from adjust_brightness_result [OF assms, of "Finite 1"] obtain out where
    o: "adjust_brightness im (Finite 1) = Inr out" "valid_image out" "same_shape out im"
       "\<forall>y x c. in_image im y x c \<longrightarrow>
          spec_brightness_value (px im y x c) (Finite 1) = Some (px out y x c)"
    by (auto simp: fmul_one)
  have "out = im"
  proof (rule image_eqI [OF o(2) assms o(3)])
    fix y x c assume "in_image out y x c"
    then have "in_image im y x c" using o(3) by (simp add: in_image_def same_shape_def)
    then show "px out y x c = px im y x c" using o(4) by (simp add: brightness_one)
  qed
  then show ?thesis using o(1) by simp
qed

theorem brightness_identity_witness:
  "valid_image sample_image \<and> adjust_brightness sample_image (Finite 1) = Inr sample_image"
  using brightness_identity [OF valid_sample_image] valid_sample_image by simp

text \<open>
  C7. At every interior pixel and channel of an 8-bit image the sum \<open>gaussian_blur\<close>
  accumulates with its kernel is the exact weighted sum and lies in \<open>[0,255]\<close>; the
  cast that follows, with no clamp, is therefore defined and stores the integral
  part of the sum.
\<close>

theorem blur_sum_in_range:
  assumes "valid_image im" "interior im y x" "c < channels im"
  shows "\<exists>s. kernel_sum im blur_kernel y x c = Finite s \<and>
           s = weighted_sum im spec_blur_weights y x c \<and> 0 \<le> s \<and> s \<le> 255 \<and>
           to_uint8 (Finite s) = Inr (word_of_int \<lfloor>s\<rfloor>) \<and>
           (\<exists>out. gaussian_blur im = Inr out \<and> px out y x c = word_of_int \<lfloor>s\<rfloor>)"
proof -
  let ?s = "weighted_sum im spec_blur_weights y x c"
  have i: "in_image im y x c" using assms(2,3) by (rule interior_in_image)
  then have h: "0 < height im" and w: "0 < width im" by (simp_all add: in_image_def)
  have nb: "\<not> border im y x"
    using assms(2) i interior_not_border [of y im x] by (simp add: in_image_def)
  from gaussian_blur_result [OF assms(1) h w] obtain out where
    o: "gaussian_blur im = Inr out"
       "\<forall>y x c. in_image im y x c \<longrightarrow>
          px out y x c = (if border im y x then px im y x c
                          else word_of_int \<lfloor>weighted_sum im spec_blur_weights y x c\<rfloor>)"
    by blast
  have "px out y x c = word_of_int \<lfloor>?s\<rfloor>" using o(2) i nb by simp
  moreover have "to_uint8 (Finite ?s) = Inr (word_of_int \<lfloor>?s\<rfloor>)"
    using blur_cast [of im y x c] by (simp only: blur_kernel_sum)
  ultimately show ?thesis
    using blur_kernel_sum [of im y x c] blur_sum_range [of im y x c] o(1) by blast
qed

theorem blur_sum_in_range_witness:
  "valid_image sample_image \<and> interior sample_image 1 1 \<and> 2 < channels sample_image \<and>
   (\<exists>s. kernel_sum sample_image blur_kernel 1 1 2 = Finite s \<and>
      s = weighted_sum sample_image spec_blur_weights 1 1 2 \<and> 0 \<le> s \<and> s \<le> 255 \<and>
      to_uint8 (Finite s) = Inr (word_of_int \<lfloor>s\<rfloor>) \<and>
      (\<exists>out. gaussian_blur sample_image = Inr out \<and> px out 1 1 2 = word_of_int \<lfloor>s\<rfloor>))"
proof -
  have i: "interior sample_image 1 1" by (simp add: interior_def sample_image_def)
  have c: "2 < channels sample_image" by (simp add: sample_image_def)
  show ?thesis
    using blur_sum_in_range [OF valid_sample_image i c] valid_sample_image i c by blast
qed

text \<open>
  C8. On a uniform image, all of whose elements are \<open>v\<close>, every interior element of
  the array \<open>gaussian_blur\<close> returns is \<open>v\<close>.
\<close>

theorem blur_uniform:
  assumes "valid_image im" "uniform im v" "interior im y x" "c < channels im"
  shows "\<exists>out. gaussian_blur im = Inr out \<and> px out y x c = v"
proof -
  have i: "in_image im y x c" using assms(3,4) by (rule interior_in_image)
  then have h: "0 < height im" and w: "0 < width im" by (simp_all add: in_image_def)
  have nb: "\<not> border im y x"
    using assms(3) i interior_not_border [of y im x] by (simp add: in_image_def)
  have n: "px im y' x' c = v" if "y' \<le> y + 1" "x' \<le> x + 1" for y' x'
  proof -
    have "in_image im y' x' c" using that assms(3,4) by (auto simp: interior_def in_image_def)
    then show ?thesis using uniform_px [OF assms(1,2)] by blast
  qed
  have "weighted_sum im spec_blur_weights y x c = of_nat (unat v)"
    unfolding blur_sum_expand by (simp add: n)
  then have "\<lfloor>weighted_sum im spec_blur_weights y x c\<rfloor> = int (unat v)"
    by (simp only: floor_of_nat)
  then have f: "word_of_int \<lfloor>weighted_sum im spec_blur_weights y x c\<rfloor> = v" by simp
  from gaussian_blur_result [OF assms(1) h w] obtain out where
    o: "gaussian_blur im = Inr out"
       "\<forall>y x c. in_image im y x c \<longrightarrow>
          px out y x c = (if border im y x then px im y x c
                          else word_of_int \<lfloor>weighted_sum im spec_blur_weights y x c\<rfloor>)"
    by blast
  have "px out y x c = v" using o(2) i nb f by simp
  then show ?thesis using o(1) by blast
qed

theorem blur_uniform_witness:
  "valid_image grey_image \<and> uniform grey_image 100 \<and> interior grey_image 1 2 \<and>
   1 < channels grey_image \<and>
   (\<exists>out. gaussian_blur grey_image = Inr out \<and> px out 1 2 1 = 100)"
proof -
  have u: "uniform grey_image 100" by (simp add: uniform_def grey_image_def)
  have i: "interior grey_image 1 2" by (simp add: interior_def grey_image_def)
  have c: "1 < channels grey_image" by (simp add: grey_image_def)
  show ?thesis
    using blur_uniform [OF valid_grey_image u i c] valid_grey_image u i c by blast
qed

text \<open>
  C9. As stated the claim fails: on an image with width 0 the border copy
  \<^verbatim>\<open>output[:, 0, :] = image[:, 0, :]\<close> of \<open>sharpen_filter\<close> raises \<open>IndexError\<close> and
  the call returns no output.
\<close>

theorem shape_counterexample:
  "valid_image no_width_image \<and> sharpen_filter_call [no_width_image] 0 = Inl IndexError"
proof -
  have "sharpen_filter_call [no_width_image] 0 = Inl IndexError" by code_simp
  then show ?thesis using valid_no_width_image by simp
qed

text \<open>
  C9, amended. For every valid input image, a call of \<open>edge_detection\<close>, and a call
  of \<open>adjust_brightness\<close> with any factor, returns a freshly allocated output of the
  input's dimensions (height, width, channels): its reference is one no array of the
  heap had, and the arrays of the heap, the input among them, are as before. So does
  a call of \<open>gaussian_blur\<close> or \<open>sharpen_filter\<close> when height and width are at least 1.
\<close>

theorem shape_preserved:
  assumes "img < length hp" "valid_image (hp ! img)"
  shows "(\<exists>out. edge_detection_call hp img = Inr (length hp, hp @ [out]) \<and>
            valid_image out \<and> same_shape out (hp ! img)) \<and>
         (0 < height (hp ! img) \<and> 0 < width (hp ! img) \<longrightarrow>
            (\<exists>out. gaussian_blur_call hp img = Inr (length hp, hp @ [out]) \<and>
               valid_image out \<and> same_shape out (hp ! img)) \<and>
            (\<exists>out. sharpen_filter_call hp img = Inr (length hp, hp @ [out]) \<and>
               valid_image out \<and> same_shape out (hp ! img))) \<and>
         (\<exists>out. adjust_brightness_call hp img factor = Inr (length hp, hp @ [out]) \<and>
            valid_image out \<and> same_shape out (hp ! img))"
proof (intro conjI impI)
  from edge_detection_result [OF assms(2)] obtain out where
    "edge_detection (hp ! img) = Inr out" "valid_image out" "same_shape out (hp ! img)"
    by blast
  then show "\<exists>out. edge_detection_call hp img = Inr (length hp, hp @ [out]) \<and>
               valid_image out \<and> same_shape out (hp ! img)"
    by (simp add: edge_detection_call_eq [OF assms(1)] returned_def)
next
  assume "0 < height (hp ! img) \<and> 0 < width (hp ! img)"
  then have h: "0 < height (hp ! img)" and w: "0 < width (hp ! img)" by simp_all
  from gaussian_blur_result [OF assms(2) h w] obtain out where
    "gaussian_blur (hp ! img) = Inr out" "valid_image out" "same_shape out (hp ! img)"
    by blast
  then show "\<exists>out. gaussian_blur_call hp img = Inr (length hp, hp @ [out]) \<and>
               valid_image out \<and> same_shape out (hp ! img)"
    by (simp add: gaussian_blur_call_eq [OF assms(1)] returned_def)
next
  assume "0 < height (hp ! img) \<and> 0 < width (hp ! img)"
  then have h: "0 < height (hp ! img)" and w: "0 < width (hp ! img)" by simp_all
  from sharpen_filter_result [OF assms(2) h w] obtain out where
    "sharpen_filter (hp ! img) = Inr out" "valid_image out" "same_shape out (hp ! img)"
    by blast
  then show "\<exists>out. sharpen_filter_call hp img = Inr (length hp, hp @ [out]) \<and>
               valid_image out \<and> same_shape out (hp ! img)"
    by (simp add: sharpen_filter_call_eq [OF assms(1)] returned_def)
next
  from adjust_brightness_result [OF assms(2), of factor] obtain out where
    "adjust_brightness (hp ! img) factor = Inr out" "valid_image out" "same_shape out (hp ! img)"
    by blast
  then show "\<exists>out. adjust_brightness_call hp img factor = Inr (length hp, hp @ [out]) \<and>
               valid_image out \<and> same_shape out (hp ! img)"
    by (simp add: adjust_brightness_call_eq [OF assms(1)] returned_def)
qed

theorem shape_preserved_witness:
  "(1::nat) < length [small_image, sample_image] \<and>
   valid_image ([small_image, sample_image] ! 1) \<and>
   0 < height ([small_image, sample_image] ! 1) \<and>
   0 < width ([small_image, sample_image] ! 1) \<and>
   (\<exists>out. edge_detection_call [small_image, sample_image] 1
             = Inr (length [small_image, sample_image], [small_image, sample_image] @ [out]) \<and>
      valid_image out \<and> same_shape out ([small_image, sample_image] ! 1)) \<and>
   (\<exists>out. gaussian_blur_call [small_image, sample_image] 1
             = Inr (length [small_image, sample_image], [small_image, sample_image] @ [out]) \<and>
      valid_image out \<and> same_shape out ([small_image, sample_image] ! 1)) \<and>
   (\<exists>out. sharpen_filter_call [small_image, sample_image] 1
             = Inr (length [small_image, sample_image], [small_image, sample_image] @ [out]) \<and>
      valid_image out \<and> same_shape out ([small_image, sample_image] ! 1)) \<and>
   (\<exists>out. adjust_brightness_call [small_image, sample_image] 1 NaN
             = Inr (length [small_image, sample_image], [small_image, sample_image] @ [out]) \<and>
      valid_image out \<and> same_shape out ([small_image, sample_image] ! 1))"
proof -
  let ?hp = "[small_image, sample_image]"
  have l: "(1::nat) < length ?hp" by simp
  have v: "valid_image (?hp ! 1)" using valid_sample_image by simp
  have p: "0 < height (?hp ! 1) \<and> 0 < width (?hp ! 1)" by (simp add: sample_image_def)
  show ?thesis
    using shape_preserved [OF l v, of NaN] l v p by blast
qed

text \<open>
  C10. For every valid input image and every factor \<open>\<le> 0\<close>, \<open>adjust_brightness\<close>
  returns the all-zero image: a product that is a number is at most 0 and is clamped
  to 0 (for the factor 0 every product is 0), and the one product that is not, of an
  element 0 with \<open>-inf\<close>, is a NaN and is stored as 0.
\<close>

theorem brightness_nonpositive:
  assumes "valid_image im" "fle factor (Finite 0)"
  shows "adjust_brightness im factor = Inr (zeros_like im)"
proof -
  from adjust_brightness_result [OF assms(1), of factor] obtain out where
    o: "adjust_brightness im factor = Inr out" "valid_image out" "same_shape out im"
       "\<forall>y x c. in_image im y x c \<longrightarrow>
          (fmul (of_u8 (px im y x c)) factor \<noteq> NaN \<longrightarrow>
             spec_brightness_value (px im y x c) factor = Some (px out y x c)) \<and>
          (fmul (of_u8 (px im y x c)) factor = NaN \<longrightarrow> px out y x c = 0)"
    by blast
  have s: "same_shape out (zeros_like im)"
    using o(3) same_shape_zeros_like [of im] by (simp add: same_shape_def)
  have "out = zeros_like im"
  proof (rule image_eqI [OF o(2) valid_zeros_like [OF assms(1)] s])
    fix y x c assume "in_image out y x c"
    then have i: "in_image im y x c" using o(3) by (simp add: in_image_def same_shape_def)
    have "px out y x c = 0"
    proof (cases "fmul (of_u8 (px im y x c)) factor = NaN")
      case True
      then show ?thesis using o(4) i by blast
    next
      case False
      with assms(2) have "spec_brightness_value (px im y x c) factor = Some 0"
        by (rule brightness_nonpos)
      then show ?thesis using o(4) i False by simp
    qed
    then show "px out y x c = px (zeros_like im) y x c" using px_zeros_like [OF i] by simp
  qed
  then show ?thesis using o(1) by simp
qed

theorem brightness_nonpositive_witness:
  "valid_image sample_image \<and> fle (Finite (- 1 / 2)) (Finite 0) \<and>
   adjust_brightness sample_image (Finite (- 1 / 2)) = Inr (zeros_like sample_image) \<and>
   fle NInf (Finite 0) \<and>
   adjust_brightness sample_image NInf = Inr (zeros_like sample_image)"
proof -
  have f: "fle (Finite (- 1 / 2)) (Finite 0)" by simp
  have g: "fle NInf (Finite 0)" by simp
  show ?thesis
    using brightness_nonpositive [OF valid_sample_image f]
      brightness_nonpositive [OF valid_sample_image g] valid_sample_image f g
    by blast
qed

end
